theory Spec2Isabelle
  imports Main
begin

section \<open>Python runtime: exceptions, indexing and slicing\<close>

text \<open>
  The exceptions that \<^verbatim>\<open>genome.py\<close> can raise: out-of-range subscripts
  (\<^verbatim>\<open>IndexError\<close>), \<^verbatim>\<open>list.remove\<close> of an absent element (\<^verbatim>\<open>ValueError\<close>),
  reading the local \<^verbatim>\<open>index_ID\<close> before it was assigned (\<^verbatim>\<open>UnboundLocalError\<close>),
  and \<^verbatim>\<open>pos % 0\<close> (\<^verbatim>\<open>ZeroDivisionError\<close>).
\<close>

datatype error = IndexError | ValueError | UnboundLocalError | ZeroDivisionError

text \<open>\<^verbatim>\<open>xs[i]\<close> for a Python int \<open>i\<close>: negative subscripts count from the end.\<close>

definition py_get :: "'a list \<Rightarrow> int \<Rightarrow> error + 'a" where
  "py_get xs i =
     (if 0 \<le> i \<and> i < int (length xs) then Inr (xs ! nat i)
      else if i < 0 \<and> - int (length xs) \<le> i then Inr (xs ! nat (int (length xs) + i))
      else Inl IndexError)"

text \<open>
  The cut point of the slices \<^verbatim>\<open>xs[0:i]\<close> and \<^verbatim>\<open>xs[i:]\<close>: a negative bound has the
  length added, and the result is clamped to \<open>0..len(xs)\<close> (slices never raise).
\<close>

definition py_cut :: "'a list \<Rightarrow> int \<Rightarrow> nat" where
  "py_cut xs i =
     (if 0 \<le> i then min (nat i) (length xs) else nat (int (length xs) + i))"

definition py_slice_to :: "'a list \<Rightarrow> int \<Rightarrow> 'a list" where
  "py_slice_to xs i = take (py_cut xs i) xs"

definition py_slice_from :: "'a list \<Rightarrow> int \<Rightarrow> 'a list" where
  "py_slice_from xs i = drop (py_cut xs i) xs"

text \<open>
  The loop shared by both \<^verbatim>\<open>disable_te\<close> methods:
  \<^verbatim>\<open>for i in range(len(self.ID)): if self.ID[i] == te: self.lst[i] = "x"\<close>.
  It returns the symbol list as the loop leaves it and the exception, if any: the store
  \<^verbatim>\<open>self.lst[i] = "x"\<close> raises when \<^verbatim>\<open>ID\<close> is longer than \<^verbatim>\<open>lst\<close> and a matching
  owner sits beyond the end of \<^verbatim>\<open>lst\<close>.
\<close>

fun disable_loop :: "int \<Rightarrow> int list \<Rightarrow> string \<Rightarrow> string \<times> error option" where
  "disable_loop te [] cs = (cs, None)"
| "disable_loop te (i # ids) [] =
     (if i = te then ([], Some IndexError) else disable_loop te ids [])"
| "disable_loop te (i # ids) (c # cs) =
     (case disable_loop te ids cs of
        (cs', e) \<Rightarrow> ((if i = te then CHR ''x'' else c) # cs', e))"

text \<open>The first index \<open>i\<close> with \<^verbatim>\<open>ID[i] == te\<close>, if there is one.\<close>

fun first_index :: "int list \<Rightarrow> int \<Rightarrow> nat option" where
  "first_index [] te = None"
| "first_index (x # xs) te =
     (if x = te then Some 0 else map_option Suc (first_index xs te))"

text \<open>The operations a caller can issue against either genome.\<close>

datatype op = Insert_te int int | Copy_te int int | Disable_te int


section \<open>The array-backed genome (class ListGenome)\<close>

record ListGenome =
  lg_lst :: string
  lg_ID :: "int list"
  lg_active_lst :: "int list"
  lg_count :: int

text \<open>\<^verbatim>\<open>ListGenome.__init__\<close>: \<^verbatim>\<open>range(n)\<close> is empty for \<open>n \<le> 0\<close>.\<close>

definition lg_init :: "int \<Rightarrow> ListGenome" where
  "lg_init n =
     \<lparr> lg_lst = replicate (nat n) CHR ''-'',
       lg_ID = replicate (nat n) 0,
       lg_active_lst = [],
       lg_count = 0 \<rparr>"

text \<open>
  \<^verbatim>\<open>ListGenome.disable_te\<close>. Every operation returns its outcome together with the
  object as the call leaves it, also when it raises: the marks are written before
  \<^verbatim>\<open>self.active_lst.remove(te)\<close> can fail.
\<close>

definition lg_disable_te :: "ListGenome \<Rightarrow> int \<Rightarrow> (error + unit) \<times> ListGenome" where
  "lg_disable_te g te =
     (case disable_loop te (lg_ID g) (lg_lst g) of
        (cs, Some e) \<Rightarrow> (Inl e, g\<lparr>lg_lst := cs\<rparr>)
      | (cs, None) \<Rightarrow>
          if te \<in> set (lg_active_lst g)
          then (Inr (), g\<lparr>lg_lst := cs, lg_active_lst := remove1 te (lg_active_lst g)\<rparr>)
          else (Inl ValueError, g\<lparr>lg_lst := cs\<rparr>))"

text \<open>
  \<^verbatim>\<open>ListGenome.insert_te\<close>, lines 128-129: the collision test
  \<^verbatim>\<open>if self.lst[pos] == "A": self.disable_te(self.ID[pos])\<close>.
\<close>

definition lg_collide :: "ListGenome \<Rightarrow> int \<Rightarrow> (error + unit) \<times> ListGenome" where
  "lg_collide g pos =
     (case py_get (lg_lst g) pos of
        Inl e \<Rightarrow> (Inl e, g)
      | Inr c \<Rightarrow>
          if c = CHR ''A''
          then (case py_get (lg_ID g) pos of
                  Inl e \<Rightarrow> (Inl e, g)
                | Inr owner \<Rightarrow> lg_disable_te g owner)
          else (Inr (), g))"

text \<open>
  \<^verbatim>\<open>ListGenome.insert_te\<close>, lines 131-141: both lists are cut at \<open>pos\<close>, \<open>len\<close> new
  entries are appended to the front parts (\<^verbatim>\<open>range(length)\<close> is empty for a
  non-positive length), and the new id joins the active list.
\<close>

definition lg_splice :: "ListGenome \<Rightarrow> int \<Rightarrow> int \<Rightarrow> ListGenome" where
  "lg_splice g pos len =
     g\<lparr> lg_lst := py_slice_to (lg_lst g) pos @ replicate (nat len) CHR ''A''
                  @ py_slice_from (lg_lst g) pos,
        lg_ID := py_slice_to (lg_ID g) pos @ replicate (nat len) (lg_count g)
                  @ py_slice_from (lg_ID g) pos,
        lg_active_lst := lg_active_lst g @ [lg_count g] \<rparr>"

definition lg_insert_te :: "ListGenome \<Rightarrow> int \<Rightarrow> int \<Rightarrow> (error + int) \<times> ListGenome" where
  "lg_insert_te g pos len =
     (let n = int (length (lg_lst g)) in
      if pos > n \<and> n = 0 then (Inl ZeroDivisionError, g)
      else
        let pos' = (if pos > n then pos mod n else pos);
            g1 = g\<lparr>lg_count := lg_count g + 1\<rparr>
        in case lg_collide g1 pos' of
             (Inl e, g2) \<Rightarrow> (Inl e, g2)
           | (Inr _, g2) \<Rightarrow> (Inr (lg_count g2), lg_splice g2 pos' len))"

text \<open>
  \<^verbatim>\<open>ListGenome.copy_te\<close>. When no entry of \<^verbatim>\<open>ID\<close> equals \<open>te\<close> the first loop never
  assigns \<^verbatim>\<open>index_ID\<close>, and reading it raises. \<^verbatim>\<open>len_ID\<close> counts every entry of
  \<^verbatim>\<open>ID\<close> equal to \<open>te\<close>.
\<close>

definition lg_copy_te :: "ListGenome \<Rightarrow> int \<Rightarrow> int \<Rightarrow> (error + int option) \<times> ListGenome" where
  "lg_copy_te g te offset =
     (case first_index (lg_ID g) te of
        None \<Rightarrow> (Inl UnboundLocalError, g)
      | Some index_ID \<Rightarrow>
          if length (lg_lst g) \<le> index_ID then (Inl IndexError, g)
          else if lg_lst g ! index_ID = CHR ''x'' then (Inr None, g)
          else
            let len_ID = int (count_list (lg_ID g) te)
            in (case lg_insert_te g (int index_ID + offset) len_ID of
                  (Inl e, g') \<Rightarrow> (Inl e, g')
                | (Inr t, g') \<Rightarrow> (Inr (Some t), g')))"

definition lg_active_tes :: "ListGenome \<Rightarrow> int list" where
  "lg_active_tes g = lg_active_lst g"

definition lg_len :: "ListGenome \<Rightarrow> nat" where
  "lg_len g = length (lg_lst g)"

text \<open>\<^verbatim>\<open>ListGenome.__str__\<close>: the one-character strings of \<^verbatim>\<open>lst\<close>, joined.\<close>

definition lg_render :: "ListGenome \<Rightarrow> string" where
  "lg_render g = lg_lst g"

text \<open>
  One call, keeping only the object: a caller that catches the exception goes on with the
  object as the failed call left it.
\<close>

fun lg_step :: "ListGenome \<Rightarrow> op \<Rightarrow> ListGenome" where
  "lg_step g (Insert_te pos len) = snd (lg_insert_te g pos len)"
| "lg_step g (Copy_te te offset) = snd (lg_copy_te g te offset)"
| "lg_step g (Disable_te te) = snd (lg_disable_te g te)"

definition lg_run :: "ListGenome \<Rightarrow> op list \<Rightarrow> ListGenome" where
  "lg_run g ops = foldl lg_step g ops"


section \<open>The linked-slot genome (class LinkedListGenome)\<close>

record LinkedListGenome =
  ll_lst :: string
  ll_index_next :: "nat list"
  ll_ID :: "int list"
  ll_active_lst :: "int list"
  ll_count :: int

text \<open>
  \<^verbatim>\<open>LinkedListGenome.__init__\<close>. The entries of \<^verbatim>\<open>index_next\<close> are only ever
  \<^verbatim>\<open>(i+1) % n\<close> with \<open>0 \<le> i < n\<close> or a list length, hence natural numbers.
\<close>

definition ll_init :: "int \<Rightarrow> LinkedListGenome" where
  "ll_init n =
     \<lparr> ll_lst = replicate (nat n) CHR ''-'',
       ll_index_next = map (\<lambda>i. (i + 1) mod nat n) [0..<nat n],
       ll_ID = replicate (nat n) 0,
       ll_active_lst = [],
       ll_count = 0 \<rparr>"

definition ll_disable_te :: "LinkedListGenome \<Rightarrow> int \<Rightarrow> (error + unit) \<times> LinkedListGenome" where
  "ll_disable_te g te =
     (case disable_loop te (ll_ID g) (ll_lst g) of
        (cs, Some e) \<Rightarrow> (Inl e, g\<lparr>ll_lst := cs\<rparr>)
      | (cs, None) \<Rightarrow>
          if te \<in> set (ll_active_lst g)
          then (Inr (), g\<lparr>ll_lst := cs, ll_active_lst := remove1 te (ll_active_lst g)\<rparr>)
          else (Inl ValueError, g\<lparr>ll_lst := cs\<rparr>))"

text \<open>
  \<^verbatim>\<open>for _ in range(pos-1): i = self.index_next[i]\<close>, run \<open>k\<close> times from slot \<open>i\<close>.
\<close>

fun walk :: "nat list \<Rightarrow> nat \<Rightarrow> nat \<Rightarrow> error + nat" where
  "walk nxt 0 i = Inr i"
| "walk nxt (Suc k) i =
     (if i < length nxt then walk nxt k (nxt ! i) else Inl IndexError)"

text \<open>
  \<^verbatim>\<open>LinkedListGenome.insert_te\<close>, lines 276-277: the collision test reads the slot the
  walk stopped at.
\<close>

definition ll_collide :: "LinkedListGenome \<Rightarrow> nat \<Rightarrow> (error + unit) \<times> LinkedListGenome" where
  "ll_collide g i =
     (if length (ll_lst g) \<le> i then (Inl IndexError, g)
      else if ll_lst g ! i = CHR ''A''
      then (if length (ll_ID g) \<le> i then (Inl IndexError, g)
            else ll_disable_te g (ll_ID g ! i))
      else (Inr (), g))"

text \<open>
  \<^verbatim>\<open>LinkedListGenome.insert_te\<close>, lines 279-290: slot \<open>i\<close> is linked to the first new
  slot \<^verbatim>\<open>len(self.lst)\<close>, \<^verbatim>\<open>range(length-1)\<close> links each new slot to the one after it,
  and one more entry holding the old successor of \<open>i\<close> is appended whatever the length.
\<close>

definition ll_splice :: "LinkedListGenome \<Rightarrow> nat \<Rightarrow> int \<Rightarrow> (error + unit) \<times> LinkedListGenome" where
  "ll_splice g i len =
     (if length (ll_index_next g) \<le> i then (Inl IndexError, g)
      else
        let old_next = ll_index_next g ! i;
            nxt = (ll_index_next g)[i := length (ll_lst g)];
            m = length nxt
        in (Inr (),
            g\<lparr> ll_index_next := nxt @ [m + 1 ..< m + 1 + nat (len - 1)] @ [old_next],
               ll_lst := ll_lst g @ replicate (nat len) CHR ''A'',
               ll_ID := ll_ID g @ replicate (nat len) (ll_count g),
               ll_active_lst := ll_active_lst g @ [ll_count g] \<rparr>))"

definition ll_insert_te :: "LinkedListGenome \<Rightarrow> int \<Rightarrow> int \<Rightarrow> (error + int) \<times> LinkedListGenome" where
  "ll_insert_te g pos len =
     (let g1 = g\<lparr>ll_count := ll_count g + 1\<rparr>
      in case walk (ll_index_next g1) (nat (pos - 1)) 0 of
           Inl e \<Rightarrow> (Inl e, g1)
         | Inr i \<Rightarrow>
             (case ll_collide g1 i of
                (Inl e, g2) \<Rightarrow> (Inl e, g2)
              | (Inr _, g2) \<Rightarrow>
                  (case ll_splice g2 i len of
                     (Inl e, g3) \<Rightarrow> (Inl e, g3)
                   | (Inr _, g3) \<Rightarrow> (Inr (ll_count g3), g3))))"

text \<open>
  The two \<^verbatim>\<open>while\<close> loops of \<^verbatim>\<open>LinkedListGenome.copy_te\<close>. Neither has a bound: on a
  ring without a slot owned by \<open>te\<close> the first one never returns, which is the value
  \<open>None\<close> here. Both return the slot reached and the number of steps taken.
\<close>

partial_function (option) seek_te ::
  "int list \<Rightarrow> nat list \<Rightarrow> int \<Rightarrow> nat \<Rightarrow> nat \<Rightarrow> (error + nat \<times> nat) option" where
  "seek_te ids nxt te i c =
     (if length ids \<le> i then Some (Inl IndexError)
      else if ids ! i = te then Some (Inr (i, c))
      else if length nxt \<le> i then Some (Inl IndexError)
      else seek_te ids nxt te (nxt ! i) (c + 1))"

partial_function (option) span_te ::
  "int list \<Rightarrow> nat list \<Rightarrow> int \<Rightarrow> nat \<Rightarrow> nat \<Rightarrow> (error + nat \<times> nat) option" where
  "span_te ids nxt te i c =
     (if length ids \<le> i then Some (Inl IndexError)
      else if ids ! i \<noteq> te then Some (Inr (i, c))
      else if length nxt \<le> i then Some (Inl IndexError)
      else span_te ids nxt te (nxt ! i) (c + 1))"

declare seek_te.simps [code]
declare span_te.simps [code]

text \<open>
  \<^verbatim>\<open>LinkedListGenome.copy_te\<close>. The two \<^verbatim>\<open>print\<close> calls write to standard output and
  change nothing in the object; they are left out.
\<close>

definition ll_copy_te ::
  "LinkedListGenome \<Rightarrow> int \<Rightarrow> int \<Rightarrow> ((error + int option) \<times> LinkedListGenome) option" where
  "ll_copy_te g te offset =
     (if te \<notin> set (ll_active_lst g) then Some (Inr None, g)
      else
        case seek_te (ll_ID g) (ll_index_next g) te 0 0 of
          None \<Rightarrow> None
        | Some (Inl e) \<Rightarrow> Some (Inl e, g)
        | Some (Inr (i, te_pos)) \<Rightarrow>
            (case span_te (ll_ID g) (ll_index_next g) te i 0 of
               None \<Rightarrow> None
             | Some (Inl e) \<Rightarrow> Some (Inl e, g)
             | Some (Inr (j, cnt)) \<Rightarrow>
                 (case ll_insert_te g
                         (int (length (ll_index_next g)) + (int te_pos + offset)) (int cnt) of
                    (Inl e, g') \<Rightarrow> Some (Inl e, g')
                  | (Inr t, g') \<Rightarrow> Some (Inr (Some t), g'))))"

definition ll_active_tes :: "LinkedListGenome \<Rightarrow> int list" where
  "ll_active_tes g = ll_active_lst g"

definition ll_len :: "LinkedListGenome \<Rightarrow> nat" where
  "ll_len g = length (ll_lst g)"

text \<open>
  \<^verbatim>\<open>LinkedListGenome.__str__\<close>: the loop runs until \<^verbatim>\<open>len(self.lst)\<close> symbols are
  collected, reading \<^verbatim>\<open>self.lst[i]\<close> and then \<^verbatim>\<open>self.index_next[i]\<close> in every round.
  The scratch attribute \<^verbatim>\<open>self.new\<close> is read by no other method.
\<close>

fun collect :: "string \<Rightarrow> nat list \<Rightarrow> nat \<Rightarrow> nat \<Rightarrow> error + string" where
  "collect cs nxt 0 i = Inr []"
| "collect cs nxt (Suc k) i =
     (if length cs \<le> i \<or> length nxt \<le> i then Inl IndexError
      else case collect cs nxt k (nxt ! i) of
             Inl e \<Rightarrow> Inl e
           | Inr s \<Rightarrow> Inr (cs ! i # s))"

definition ll_render :: "LinkedListGenome \<Rightarrow> error + string" where
  "ll_render g = collect (ll_lst g) (ll_index_next g) (length (ll_lst g)) 0"

fun ll_step :: "LinkedListGenome \<Rightarrow> op \<Rightarrow> LinkedListGenome option" where
  "ll_step g (Insert_te pos len) = Some (snd (ll_insert_te g pos len))"
| "ll_step g (Copy_te te offset) = map_option snd (ll_copy_te g te offset)"
| "ll_step g (Disable_te te) = Some (snd (ll_disable_te g te))"

fun ll_run :: "LinkedListGenome \<Rightarrow> op list \<Rightarrow> LinkedListGenome option" where
  "ll_run g [] = Some g"
| "ll_run g (x # xs) = (case ll_step g x of None \<Rightarrow> None | Some g' \<Rightarrow> ll_run g' xs)"


section \<open>Notions used by the properties\<close>

text \<open>
  How the id counter and the active list of a genome can change over any number of calls:
  the counter never decreases, and an id in the later active list either was in the earlier
  one or was minted in between.
\<close>

definition evolves :: "int \<Rightarrow> int list \<Rightarrow> int \<Rightarrow> int list \<Rightarrow> bool" where
  "evolves c a c' a' = (c \<le> c' \<and> (\<forall>t \<in> set a'. t \<in> set a \<or> (c < t \<and> t \<le> c')))"

abbreviation lg_evolves :: "ListGenome \<Rightarrow> ListGenome \<Rightarrow> bool" where
  "lg_evolves g g' \<equiv> evolves (lg_count g) (lg_active_lst g) (lg_count g') (lg_active_lst g')"

abbreviation ll_evolves :: "LinkedListGenome \<Rightarrow> LinkedListGenome \<Rightarrow> bool" where
  "ll_evolves g g' \<equiv> evolves (ll_count g) (ll_active_lst g) (ll_count g') (ll_active_lst g')"


text \<open>
  What the marking loop of \<^verbatim>\<open>disable_te\<close> computes when \<^verbatim>\<open>lst\<close> and \<^verbatim>\<open>ID\<close> have the same
  length: every position owned by \<open>te\<close> shows \<open>x\<close>.
\<close>

definition mark_owner :: "int \<Rightarrow> string \<Rightarrow> int list \<Rightarrow> string" where
  "mark_owner te cs ids = map (\<lambda>(c, t). if t = te then CHR ''x'' else c) (zip cs ids)"

text \<open>
  The state invariant of the array-backed genome: the two lists run in lockstep, no id in
  the active list or in \<^verbatim>\<open>ID\<close> exceeds the counter, and every position showing \<open>A\<close> is
  owned by an id of the active list.
\<close>

definition lg_wf :: "ListGenome \<Rightarrow> bool" where
  "lg_wf g =
     (length (lg_lst g) = length (lg_ID g)
      \<and> (\<forall>t \<in> set (lg_active_lst g). t \<le> lg_count g)
      \<and> (\<forall>t \<in> set (lg_ID g). t \<le> lg_count g)
      \<and> (\<forall>p \<in> set (zip (lg_lst g) (lg_ID g)).
            fst p = CHR ''A'' \<longrightarrow> snd p \<in> set (lg_active_lst g)))"

text \<open>Operations whose insert length, where they have one, is at least 1.\<close>

fun positive_len :: "op \<Rightarrow> bool" where
  "positive_len (Insert_te pos len) = (1 \<le> len)"
| "positive_len (Copy_te te offset) = True"
| "positive_len (Disable_te te) = True"

text \<open>
  The first \<open>k\<close> slots visited by following \<^verbatim>\<open>index_next\<close> from slot \<open>i\<close>.
\<close>

fun ring_path :: "nat list \<Rightarrow> nat \<Rightarrow> nat \<Rightarrow> nat list" where
  "ring_path nxt 0 i = []"
| "ring_path nxt (Suc k) i = i # ring_path nxt k (nxt ! i)"

text \<open>
  Lockstep storage of the linked-slot genome: the three lists have one length \<open>m\<close>, and
  the \<open>m\<close> slots visited from slot 0 are distinct, in range, and the last one links back
  to slot 0.
\<close>

definition ll_lockstep :: "LinkedListGenome \<Rightarrow> bool" where
  "ll_lockstep g =
     (let m = length (ll_lst g); p = ring_path (ll_index_next g) m 0
      in length (ll_ID g) = m \<and> length (ll_index_next g) = m
         \<and> distinct p \<and> (\<forall>s \<in> set p. s < m)
         \<and> (0 < m \<longrightarrow> ll_index_next g ! last p = 0))"

text \<open>Lockstep storage of the array-backed genome.\<close>

definition lg_lockstep :: "ListGenome \<Rightarrow> bool" where
  "lg_lockstep g = (length (lg_lst g) = length (lg_ID g))"

text \<open>
  A list \<open>p\<close> of slots is a ring of \<open>nxt\<close> when it holds every slot once, starts at
  slot 0, each slot links to the one after it, and the last links to slot 0.
\<close>

definition ring :: "nat list \<Rightarrow> nat list \<Rightarrow> bool" where
  "ring nxt p =
     (length p = length nxt \<and> distinct p \<and> (\<forall>s \<in> set p. s < length nxt)
      \<and> successively (\<lambda>a b. nxt ! a = b) p
      \<and> (p \<noteq> [] \<longrightarrow> hd p = 0 \<and> nxt ! last p = 0))"


text \<open>
  Ownership in the linked-slot genome: the counter is not negative, every id of the active
  list is at least 1 and owns a slot, and slot 0, if there is one, has owner 0.
\<close>

definition ll_owned :: "LinkedListGenome \<Rightarrow> bool" where
  "ll_owned g =
     (0 \<le> ll_count g
      \<and> list_all (\<lambda>t. 1 \<le> t \<and> t \<in> set (ll_ID g)) (ll_active_lst g)
      \<and> (ll_ID g = [] \<or> ll_ID g ! 0 = 0))"

text \<open>The active list of the array-backed genome holds no id twice and none above the counter.\<close>

definition lg_distinct :: "ListGenome \<Rightarrow> bool" where
  "lg_distinct g = (distinct (lg_active_lst g) \<and> list_all (\<lambda>t. t \<le> lg_count g) (lg_active_lst g))"

section \<open>Behaviour at concrete inputs\<close>

text \<open>
  Claim C1 (both realizations give the same \<^verbatim>\<open>render()\<close> and \<^verbatim>\<open>active_tes()\<close> after
  every step of a common sequence of operations). On genomes of size 3 the sequence
  \<^verbatim>\<open>insert_te(1, 1); insert_te(1, 1)\<close> separates them: the array genome finds \<open>A\<close>
  at position 1, disables id 1 and shows \<open>-Ax--\<close> with active ids \<open>[2]\<close>; the linked
  genome tests slot 0, which the walk of \<^verbatim>\<open>range(pos-1)\<close> never leaves, disables nothing
  and shows \<open>-AA--\<close> with active ids \<open>[1, 2]\<close>.
\<close>

theorem list_and_linked_diverge:
  "lg_render (lg_run (lg_init 3) [Insert_te 1 1, Insert_te 1 1]) = ''-Ax--''
   \<and> lg_active_tes (lg_run (lg_init 3) [Insert_te 1 1, Insert_te 1 1]) = [2]
   \<and> map_option ll_render (ll_run (ll_init 3) [Insert_te 1 1, Insert_te 1 1])
       = Some (Inr ''-AA--'')
   \<and> map_option ll_active_tes (ll_run (ll_init 3) [Insert_te 1 1, Insert_te 1 1])
       = Some [1, 2]"
  by code_simp

text \<open>
  Claim C2 (an insert at an Active position disables the whole TE that owns it, in both
  realizations). In the linked genome of size 3 after \<^verbatim>\<open>insert_te(1, 1)\<close> position 1
  renders \<open>A\<close> and belongs to id 1; a second \<^verbatim>\<open>insert_te(1, 1)\<close> returns id 2 and leaves
  id 1 in the active list, with no position rendered \<open>x\<close>.
\<close>

theorem ll_insert_te_keeps_struck_owner:
  "ll_render (snd (ll_insert_te (ll_init 3) 1 1)) = Inr ''-A--''
   \<and> ll_ID (snd (ll_insert_te (ll_init 3) 1 1)) = [0, 0, 0, 1]
   \<and> fst (ll_insert_te (snd (ll_insert_te (ll_init 3) 1 1)) 1 1) = Inr 2
   \<and> ll_active_tes (snd (ll_insert_te (snd (ll_insert_te (ll_init 3) 1 1)) 1 1)) = [1, 2]
   \<and> ll_render (snd (ll_insert_te (snd (ll_insert_te (ll_init 3) 1 1)) 1 1)) = Inr ''-AA--''"
  by code_simp

text \<open>
  Claim C3 (\<^verbatim>\<open>disable_te\<close> of an id outside the active list is a silent no-op, so that
  disabling twice equals disabling once). In both realizations \<^verbatim>\<open>disable_te(1)\<close> on a
  fresh genome of size 3 raises \<^verbatim>\<open>ValueError\<close>, and so does the second of two
  \<^verbatim>\<open>disable_te(1)\<close> calls after \<^verbatim>\<open>insert_te(1, 1)\<close>; \<^verbatim>\<open>disable_te(0)\<close> on the
  fresh array genome moreover turns every empty position into \<open>x\<close> before it raises.
\<close>

theorem disable_te_inactive_raises:
  "fst (lg_disable_te (lg_init 3) 1) = Inl ValueError
   \<and> fst (ll_disable_te (ll_init 3) 1) = Inl ValueError
   \<and> fst (lg_disable_te (lg_run (lg_init 3) [Insert_te 1 1, Disable_te 1]) 1) = Inl ValueError
   \<and> lg_render (lg_init 3) = ''---''
   \<and> lg_disable_te (lg_init 3) 0 = (Inl ValueError, (lg_init 3)\<lparr>lg_lst := ''xxx''\<rparr>)"
  by code_simp

text \<open>
  Claim C4 (\<^verbatim>\<open>copy_te\<close> of an id outside the active list returns no value, raises
  nothing and changes nothing, in both realizations). On the fresh array genome of size 3
  \<^verbatim>\<open>copy_te(5, 0)\<close>, for the never issued id 5, raises \<^verbatim>\<open>UnboundLocalError\<close>, and
  \<^verbatim>\<open>copy_te(0, 0)\<close>, for the owner value 0 of the empty positions, inserts a TE of
  length 3 and returns id 1.
\<close>

theorem lg_copy_te_unknown_id_raises:
  "fst (lg_copy_te (lg_init 3) 5 0) = Inl UnboundLocalError
   \<and> lg_active_tes (lg_init 3) = []
   \<and> fst (lg_copy_te (lg_init 3) 0 0) = Inr (Some 1)
   \<and> lg_render (snd (lg_copy_te (lg_init 3) 0 0)) = ''AAA---''"
  by code_simp

text \<open>
  Claim C5 (\<^verbatim>\<open>insert_te\<close> never fails on an out-of-range position, which is taken
  modulo the length). On the fresh array genome of size 3, \<^verbatim>\<open>insert_te(3, 1)\<close> and
  \<^verbatim>\<open>insert_te(-4, 1)\<close> raise \<^verbatim>\<open>IndexError\<close>, while the inserts at \<open>3 mod 3 = 0\<close> and
  \<open>-4 mod 3 = 2\<close> succeed: the guard \<^verbatim>\<open>pos > len(self.lst)\<close> lets \<open>pos = len\<close> and
  every negative position through unreduced.
\<close>

theorem lg_insert_te_at_length_raises:
  "fst (lg_insert_te (lg_init 3) 3 1) = Inl IndexError
   \<and> fst (lg_insert_te (lg_init 3) (3 mod 3) 1) = Inr 1
   \<and> fst (lg_insert_te (lg_init 3) (- 4) 1) = Inl IndexError
   \<and> fst (lg_insert_te (lg_init 3) (- 4 mod 3) 1) = Inr 1"
  by code_simp

text \<open>
  Claim C6 (\<^verbatim>\<open>insert_te(pos, L)\<close> grows the length by \<open>L\<close> and renders \<open>L\<close> times \<open>A\<close>
  from position \<open>pos mod N\<close> on, in both realizations). On the fresh linked genome of
  size 3, \<^verbatim>\<open>insert_te(0, 1)\<close> renders \<open>-A--\<close>: the new position is 1, not 0, since
  \<^verbatim>\<open>range(pos-1)\<close> is as empty for \<open>pos = 0\<close> as for \<open>pos = 1\<close>. The array genome
  renders \<open>A---\<close> there, and at \<open>pos = 3\<close> it raises and keeps its length 3.
\<close>

theorem ll_insert_te_at_zero_lands_at_one:
  "ll_render (snd (ll_insert_te (ll_init 3) 0 1)) = Inr ''-A--''
   \<and> ll_render (snd (ll_insert_te (ll_init 3) 1 1)) = Inr ''-A--''
   \<and> lg_render (snd (lg_insert_te (lg_init 3) 0 1)) = ''A---''
   \<and> lg_len (snd (lg_insert_te (lg_init 3) 3 1)) = 3"
  by code_simp

text \<open>
  Claim C7 (\<^verbatim>\<open>copy_te\<close> of an active id with run length \<open>L\<close> inserts a new TE of
  length \<open>L\<close> at \<open>(pos(te) + offset) mod N\<close>, for every offset, wrapping in both
  directions). In the array genome of size 3 after \<^verbatim>\<open>insert_te(1, 1)\<close> the TE 1 sits at
  position 1 of 4; \<^verbatim>\<open>copy_te(1, 3)\<close> and \<^verbatim>\<open>copy_te(1, -6)\<close> raise \<^verbatim>\<open>IndexError\<close>
  where the claim puts the copy at positions \<open>(1 + 3) mod 4 = 0\<close> and
  \<open>(1 - 6) mod 4 = 3\<close>, and the length stays 4.
\<close>

theorem lg_copy_te_wrapping_offset_raises:
  "lg_render (lg_run (lg_init 3) [Insert_te 1 1]) = ''-A--''
   \<and> lg_active_tes (lg_run (lg_init 3) [Insert_te 1 1]) = [1]
   \<and> fst (lg_copy_te (lg_run (lg_init 3) [Insert_te 1 1]) 1 3) = Inl IndexError
   \<and> lg_len (snd (lg_copy_te (lg_run (lg_init 3) [Insert_te 1 1]) 1 3)) = 4
   \<and> fst (lg_copy_te (lg_run (lg_init 3) [Insert_te 1 1]) 1 (- 6)) = Inl IndexError"
  by code_simp


section \<open>Identifiers are never reactivated\<close>

lemma evolves_refl: "evolves c a c a"
  by (simp add: evolves_def)

lemma evolves_trans:
  "evolves c a c' a' \<Longrightarrow> evolves c' a' c'' a'' \<Longrightarrow> evolves c a c'' a''"
  unfolding evolves_def by fastforce

lemma evolves_bounded:
  "evolves c a c' a' \<Longrightarrow> \<forall>t \<in> set a. t \<le> c \<Longrightarrow> \<forall>t \<in> set a'. t \<le> c'"
  unfolding evolves_def by fastforce

lemma evolves_retired:
  "evolves c a c' a' \<Longrightarrow> te \<le> c \<Longrightarrow> te \<notin> set a \<Longrightarrow> te \<le> c' \<and> te \<notin> set a'"
  unfolding evolves_def by fastforce

lemma lg_disable_te_evolves: "lg_evolves g (snd (lg_disable_te g te))"
  by (auto simp: lg_disable_te_def evolves_def split: prod.splits option.splits
           dest: notin_set_remove1)

lemma lg_collide_evolves: "lg_evolves g (snd (lg_collide g pos))"
  by (auto simp: lg_collide_def evolves_refl lg_disable_te_evolves split: sum.splits)

lemma lg_collide_count: "lg_count (snd (lg_collide g pos)) = lg_count g"
  by (auto simp: lg_collide_def lg_disable_te_def split: sum.splits prod.splits option.splits)

lemma lg_splice_evolves: "lg_evolves g g2 \<Longrightarrow> lg_count g < lg_count g2 \<Longrightarrow> lg_evolves g (lg_splice g2 p len)"
  by (auto simp: lg_splice_def evolves_def)

lemma lg_insert_te_evolves: "lg_evolves g (snd (lg_insert_te g pos len))"
proof (cases "int (length (lg_lst g)) < pos \<and> length (lg_lst g) = 0")
  case True
  then show ?thesis by (simp add: lg_insert_te_def evolves_refl)
next
  case False
  let ?g1 = "g\<lparr>lg_count := lg_count g + 1\<rparr>"
  define p where "p = (if int (length (lg_lst g)) < pos then pos mod int (length (lg_lst g)) else pos)"
  obtain r g2 where col: "lg_collide ?g1 p = (r, g2)"
    by (cases "lg_collide ?g1 p")
  have "lg_evolves g ?g1" by (simp add: evolves_def)
  from evolves_trans [OF this lg_collide_evolves [of ?g1 p]] col
  have ev: "lg_evolves g g2" by simp
  have cnt: "lg_count g < lg_count g2"
    using lg_collide_count [of ?g1 p] col by simp
  have "snd (lg_insert_te g pos len) = (case r of Inl e \<Rightarrow> g2 | Inr u \<Rightarrow> lg_splice g2 p len)"
    using False col by (simp add: lg_insert_te_def Let_def p_def split: sum.splits)
  then show ?thesis
    using ev cnt by (simp add: lg_splice_evolves split: sum.splits)
qed

lemma snd_relabel:
  "snd (case x of (Inl e, g') \<Rightarrow> (Inl e, g') | (Inr t, g') \<Rightarrow> (Inr (f t), g')) = snd x"
  by (auto split: prod.splits sum.splits)

lemma lg_copy_te_snd:
  "snd (lg_copy_te g te offset) =
     (case first_index (lg_ID g) te of
        None \<Rightarrow> g
      | Some i \<Rightarrow>
          if length (lg_lst g) \<le> i \<or> lg_lst g ! i = CHR ''x'' then g
          else snd (lg_insert_te g (int i + offset) (int (count_list (lg_ID g) te))))"
  by (simp add: lg_copy_te_def Let_def snd_relabel split: option.splits)

lemma lg_copy_te_evolves: "lg_evolves g (snd (lg_copy_te g te offset))"
  by (simp add: lg_copy_te_snd evolves_refl lg_insert_te_evolves split: option.splits)

lemma lg_step_evolves: "lg_evolves g (lg_step g x)"
  by (cases x) (simp_all add: lg_insert_te_evolves lg_copy_te_evolves lg_disable_te_evolves)

lemma lg_run_evolves: "lg_evolves g (lg_run g xs)"
  unfolding lg_run_def
proof (induction xs arbitrary: g)
  case Nil
  show ?case by (simp add: evolves_refl)
next
  case (Cons x xs)
  show ?case using evolves_trans [OF lg_step_evolves Cons.IH] by simp
qed


lemma ll_disable_te_evolves: "ll_evolves g (snd (ll_disable_te g te))"
  by (auto simp: ll_disable_te_def evolves_def split: prod.splits option.splits
           dest: notin_set_remove1)

lemma ll_disable_te_count: "ll_count (snd (ll_disable_te g te)) = ll_count g"
  by (auto simp: ll_disable_te_def split: prod.splits option.splits)

lemma ll_collide_evolves: "ll_evolves g (snd (ll_collide g i))"
  by (simp add: ll_collide_def evolves_refl ll_disable_te_evolves)

lemma ll_collide_count: "ll_count (snd (ll_collide g i)) = ll_count g"
  by (simp add: ll_collide_def ll_disable_te_count)

lemma ll_splice_evolves:
  "ll_evolves g g2 \<Longrightarrow> ll_count g < ll_count g2 \<Longrightarrow> ll_evolves g (snd (ll_splice g2 i len))"
  by (auto simp: ll_splice_def Let_def evolves_def)

lemma ll_insert_te_evolves: "ll_evolves g (snd (ll_insert_te g pos len))"
proof -
  let ?g1 = "g\<lparr>ll_count := ll_count g + 1\<rparr>"
  have g1: "ll_evolves g ?g1" by (simp add: evolves_def)
  show ?thesis
  proof (cases "walk (ll_index_next ?g1) (nat (pos - 1)) 0")
    case (Inl e)
    then show ?thesis using g1 by (simp add: ll_insert_te_def)
  next
    case (Inr i)
    obtain r g2 where col: "ll_collide ?g1 i = (r, g2)"
      by (cases "ll_collide ?g1 i")
    from evolves_trans [OF g1 ll_collide_evolves [of ?g1 i]] col
    have ev: "ll_evolves g g2" by simp
    have cnt: "ll_count g < ll_count g2"
      using ll_collide_count [of ?g1 i] col by simp
    have "snd (ll_insert_te g pos len) = (case r of Inl e \<Rightarrow> g2 | Inr u \<Rightarrow> snd (ll_splice g2 i len))"
      using Inr col by (simp add: ll_insert_te_def Let_def split: sum.splits prod.splits)
    then show ?thesis
      using ev cnt by (simp add: ll_splice_evolves split: sum.splits)
  qed
qed

lemma ll_copy_te_snd:
  "ll_copy_te g te offset = Some (r, g') \<Longrightarrow> g' = g \<or> (\<exists>p l. g' = snd (ll_insert_te g p l))"
  unfolding ll_copy_te_def
  by (auto split: if_splits option.splits sum.splits prod.splits) (metis snd_conv)+

lemma ll_step_evolves: "ll_step g x = Some g' \<Longrightarrow> ll_evolves g g'"
proof (cases x)
  case (Insert_te pos len)
  assume "ll_step g x = Some g'"
  with Insert_te show ?thesis using ll_insert_te_evolves [of g pos len] by auto
next
  case (Copy_te te offset)
  assume "ll_step g x = Some g'"
  with Copy_te obtain r where "ll_copy_te g te offset = Some (r, g')" by auto
  from ll_copy_te_snd [OF this] show ?thesis
    by (auto simp: evolves_refl ll_insert_te_evolves)
next
  case (Disable_te te)
  assume "ll_step g x = Some g'"
  with Disable_te show ?thesis using ll_disable_te_evolves [of g te] by auto
qed

lemma ll_run_evolves: "ll_run g xs = Some g' \<Longrightarrow> ll_evolves g g'"
proof (induction xs arbitrary: g)
  case Nil
  then show ?case by (simp add: evolves_refl)
next
  case (Cons x xs)
  then obtain g1 where s: "ll_step g x = Some g1" and r: "ll_run g1 xs = Some g'"
    by (auto split: option.splits)
  from evolves_trans [OF ll_step_evolves [OF s] Cons.IH [OF r]] show ?case .
qed

lemma lg_run_append: "lg_run g (xs @ ys) = lg_run (lg_run g xs) ys"
  by (simp add: lg_run_def)

lemma lg_reactivation_free:
  assumes "te \<in> set (lg_active_lst (lg_run (lg_init n) ops1))"
    and "te \<notin> set (lg_active_lst (lg_run (lg_init n) (ops1 @ ops2)))"
  shows "te \<notin> set (lg_active_lst (lg_run (lg_init n) (ops1 @ ops2 @ ops3)))"
proof -
  let ?g1 = "lg_run (lg_init n) ops1"
  let ?g2 = "lg_run ?g1 ops2"
  let ?g3 = "lg_run ?g2 ops3"
  have "\<forall>t \<in> set (lg_active_lst (lg_init n)). t \<le> lg_count (lg_init n)"
    by (simp add: lg_init_def)
  from evolves_bounded [OF lg_run_evolves this] assms(1)
  have "te \<le> lg_count ?g1" by blast
  moreover have "lg_count ?g1 \<le> lg_count ?g2"
    using lg_run_evolves [of ?g1 ops2] by (simp add: evolves_def)
  ultimately have "te \<le> lg_count ?g2" by simp
  moreover have "te \<notin> set (lg_active_lst ?g2)"
    using assms(2) by (simp add: lg_run_append)
  ultimately have "te \<notin> set (lg_active_lst ?g3)"
    using evolves_retired [OF lg_run_evolves [of ?g2 ops3]] by blast
  then show ?thesis by (simp add: lg_run_append)
qed

lemma ll_reactivation_free:
  assumes "ll_run (ll_init n) ops1 = Some g1" and "ll_run g1 ops2 = Some g2"
    and "ll_run g2 ops3 = Some g3"
    and "te \<in> set (ll_active_lst g1)" and "te \<notin> set (ll_active_lst g2)"
  shows "te \<notin> set (ll_active_lst g3)"
proof -
  have "\<forall>t \<in> set (ll_active_lst (ll_init n)). t \<le> ll_count (ll_init n)"
    by (simp add: ll_init_def)
  from evolves_bounded [OF ll_run_evolves [OF assms(1)] this] assms(4)
  have "te \<le> ll_count g1" by blast
  moreover have "ll_count g1 \<le> ll_count g2"
    using ll_run_evolves [OF assms(2)] by (simp add: evolves_def)
  ultimately have "te \<le> ll_count g2" by simp
  with evolves_retired [OF ll_run_evolves [OF assms(3)]] assms(5)
  show ?thesis by blast
qed


lemma ll_run_append:
  "ll_run g (xs @ ys) = (case ll_run g xs of None \<Rightarrow> None | Some g' \<Rightarrow> ll_run g' ys)"
  by (induction xs arbitrary: g) (auto split: option.splits)

text \<open>
  Claim C8 (no reactivation). Over any sequence of operations from a freshly constructed
  genome of any size, where a caller that catches an exception goes on with the object as
  the failed call left it: an id that is in the active list after \<open>ops1\<close> and absent from
  it after the further operations \<open>ops2\<close> is absent from it after any further operations
  \<open>ops3\<close>. This holds for the array-backed genome, and for the linked-slot genome
  whenever its calls return (on a ring damaged by an insert of non-positive length,
  \<^verbatim>\<open>copy_te\<close> can loop forever).
\<close>

theorem no_reactivation:
  "(te \<in> set (lg_active_tes (lg_run (lg_init n) ops1)) \<longrightarrow>
    te \<notin> set (lg_active_tes (lg_run (lg_init n) (ops1 @ ops2))) \<longrightarrow>
    te \<notin> set (lg_active_tes (lg_run (lg_init n) (ops1 @ ops2 @ ops3))))
   \<and> (map_option ll_active_tes (ll_run (ll_init n) ops1) = Some a1 \<longrightarrow> te \<in> set a1 \<longrightarrow>
      map_option ll_active_tes (ll_run (ll_init n) (ops1 @ ops2)) = Some a2 \<longrightarrow> te \<notin> set a2 \<longrightarrow>
      map_option ll_active_tes (ll_run (ll_init n) (ops1 @ ops2 @ ops3)) = Some a3 \<longrightarrow>
      te \<notin> set a3)"
proof (intro conjI impI)
  assume "te \<in> set (lg_active_tes (lg_run (lg_init n) ops1))"
    and "te \<notin> set (lg_active_tes (lg_run (lg_init n) (ops1 @ ops2)))"
  then show "te \<notin> set (lg_active_tes (lg_run (lg_init n) (ops1 @ ops2 @ ops3)))"
    unfolding lg_active_tes_def by (rule lg_reactivation_free)
next
  assume r1: "map_option ll_active_tes (ll_run (ll_init n) ops1) = Some a1"
    and r2: "map_option ll_active_tes (ll_run (ll_init n) (ops1 @ ops2)) = Some a2"
    and r3: "map_option ll_active_tes (ll_run (ll_init n) (ops1 @ ops2 @ ops3)) = Some a3"
    and m1: "te \<in> set a1" and m2: "te \<notin> set a2"
  from r1 obtain g1 where g1: "ll_run (ll_init n) ops1 = Some g1" "ll_active_lst g1 = a1"
    by (auto simp: ll_active_tes_def)
  from r2 g1 obtain g2 where g2: "ll_run g1 ops2 = Some g2" "ll_active_lst g2 = a2"
    by (auto simp: ll_active_tes_def ll_run_append)
  from r3 g1 g2 obtain g3 where g3: "ll_run g2 ops3 = Some g3" "ll_active_lst g3 = a3"
    by (auto simp: ll_active_tes_def ll_run_append)
  from ll_reactivation_free [OF g1(1) g2(1) g3(1)] m1 m2 g1(2) g2(2) g3(2)
  show "te \<notin> set a3" by simp
qed

theorem no_reactivation_witness:
  "1 \<in> set (lg_active_tes (lg_run (lg_init 3) [Insert_te 1 1]))
   \<and> 1 \<notin> set (lg_active_tes (lg_run (lg_init 3) ([Insert_te 1 1] @ [Disable_te 1])))
   \<and> 1 \<notin> set (lg_active_tes (lg_run (lg_init 3)
              ([Insert_te 1 1] @ [Disable_te 1] @ [Insert_te 1 1, Copy_te 2 1])))
   \<and> map_option ll_active_tes (ll_run (ll_init 3) [Insert_te 1 1]) = Some [1]
   \<and> (1::int) \<in> set [1]
   \<and> map_option ll_active_tes (ll_run (ll_init 3) ([Insert_te 1 1] @ [Disable_te 1])) = Some []
   \<and> (1::int) \<notin> set []
   \<and> map_option ll_active_tes (ll_run (ll_init 3)
        ([Insert_te 1 1] @ [Disable_te 1] @ [Insert_te 1 1, Copy_te 2 1])) = Some [3]
   \<and> (1::int) \<notin> set [3]"
proof -
  have h1: "1 \<in> set (lg_active_tes (lg_run (lg_init 3) [Insert_te 1 1]))"
    by code_simp
  have h2: "1 \<notin> set (lg_active_tes (lg_run (lg_init 3) ([Insert_te 1 1] @ [Disable_te 1])))"
    by code_simp
  have k1: "map_option ll_active_tes (ll_run (ll_init 3) [Insert_te 1 1]) = Some [1]"
    by code_simp
  have k2: "map_option ll_active_tes (ll_run (ll_init 3) ([Insert_te 1 1] @ [Disable_te 1])) = Some []"
    by code_simp
  have k3: "map_option ll_active_tes (ll_run (ll_init 3)
        ([Insert_te 1 1] @ [Disable_te 1] @ [Insert_te 1 1, Copy_te 2 1])) = Some [3]"
    by code_simp
  note inst = no_reactivation [of 1 3 "[Insert_te 1 1]" "[Disable_te 1]"
      "[Insert_te 1 1, Copy_te 2 1]" "[1]" "[]" "[3]"]
  from inst h1 h2 have c1: "1 \<notin> set (lg_active_tes (lg_run (lg_init 3)
              ([Insert_te 1 1] @ [Disable_te 1] @ [Insert_te 1 1, Copy_te 2 1])))"
    by blast
  have m1: "(1::int) \<in> set [1]" and m2: "(1::int) \<notin> set []" by simp_all
  from inst k1 k2 k3 m1 m2 have c2: "(1::int) \<notin> set [3]"
    by blast
  from h1 h2 c1 k1 m1 k2 m2 k3 c2 show ?thesis
    by (intro conjI)
qed



section \<open>The array-backed genome keeps its invariant; inserts of length zero\<close>

lemma disable_loop_lockstep:
  "length ids = length cs \<Longrightarrow> disable_loop te ids cs = (mark_owner te cs ids, None)"
  by (induction ids cs rule: list_induct2) (simp_all add: mark_owner_def)

lemma length_mark_owner: "length ids = length cs \<Longrightarrow> length (mark_owner te cs ids) = length cs"
  by (simp add: mark_owner_def)

lemma zip_mark_owner:
  "length ids = length cs \<Longrightarrow>
   zip (mark_owner te cs ids) ids = map (\<lambda>(c, t). (if t = te then CHR ''x'' else c, t)) (zip cs ids)"
  by (induction ids cs rule: list_induct2) (simp_all add: mark_owner_def)

lemma lg_disable_te_lockstep:
  "length (lg_lst g) = length (lg_ID g) \<Longrightarrow>
   lg_disable_te g te =
     (if te \<in> set (lg_active_lst g)
      then (Inr (), g\<lparr>lg_lst := mark_owner te (lg_lst g) (lg_ID g),
                       lg_active_lst := remove1 te (lg_active_lst g)\<rparr>)
      else (Inl ValueError, g\<lparr>lg_lst := mark_owner te (lg_lst g) (lg_ID g)\<rparr>))"
  by (simp add: lg_disable_te_def disable_loop_lockstep)

lemma mark_owner_active:
  assumes "\<forall>p \<in> set (zip cs ids). fst p = CHR ''A'' \<longrightarrow> snd p \<in> set act"
    and "length ids = length cs"
    and "p \<in> set (zip (mark_owner te cs ids) ids)" and "fst p = CHR ''A''"
  shows "snd p \<in> set (remove1 te act) \<and> snd p \<in> set act"
proof -
  from assms(3,4) obtain c0 where c0: "(c0, snd p) \<in> set (zip cs ids)"
    and m: "(if snd p = te then CHR ''x'' else c0) = CHR ''A''"
    by (auto simp: zip_mark_owner [OF assms(2)])
  from m have "snd p \<noteq> te" and "c0 = CHR ''A''"
    by (simp_all split: if_splits)
  with c0 assms(1) have "snd p \<in> set act" by fastforce
  with \<open>snd p \<noteq> te\<close> show ?thesis by simp
qed

lemma lg_disable_te_wf:
  assumes "lg_wf g"
  shows "lg_wf (snd (lg_disable_te g te))"
proof -
  from assms have len: "length (lg_lst g) = length (lg_ID g)"
    and act: "\<forall>p \<in> set (zip (lg_lst g) (lg_ID g)).
                fst p = CHR ''A'' \<longrightarrow> snd p \<in> set (lg_active_lst g)"
    and b1: "\<forall>t \<in> set (lg_active_lst g). t \<le> lg_count g"
    and b2: "\<forall>t \<in> set (lg_ID g). t \<le> lg_count g"
    by (simp_all add: lg_wf_def)
  have m: "\<forall>p \<in> set (zip (mark_owner te (lg_lst g) (lg_ID g)) (lg_ID g)).
           fst p = CHR ''A'' \<longrightarrow>
           snd p \<in> set (remove1 te (lg_active_lst g)) \<and> snd p \<in> set (lg_active_lst g)"
    using mark_owner_active [OF act len [symmetric]] by blast
  have b3: "\<forall>t \<in> set (remove1 te (lg_active_lst g)). t \<le> lg_count g"
    using b1 notin_set_remove1 by fast
  show ?thesis
  proof (cases "te \<in> set (lg_active_lst g)")
    case True
    with len b2 b3 m show ?thesis
      unfolding lg_wf_def lg_disable_te_lockstep [OF len]
      by (simp add: length_mark_owner)
  next
    case False
    with len b1 b2 m show ?thesis
      unfolding lg_wf_def lg_disable_te_lockstep [OF len]
      by (simp add: length_mark_owner)
  qed
qed

lemma lg_collide_wf: "lg_wf g \<Longrightarrow> lg_wf (snd (lg_collide g pos))"
  by (simp add: lg_collide_def lg_disable_te_wf split: sum.splits)

lemma py_cut_lockstep: "length xs = length ys \<Longrightarrow> py_cut xs i = py_cut ys i"
  by (simp add: py_cut_def)

lemma lg_splice_wf:
  assumes "lg_wf g"
  shows "lg_wf (lg_splice g pos len)"
proof -
  let ?k = "py_cut (lg_lst g) pos"
  from assms have len: "length (lg_lst g) = length (lg_ID g)" by (simp add: lg_wf_def)
  have k: "py_cut (lg_ID g) pos = ?k" using py_cut_lockstep [OF len] by simp
  have z: "zip (lg_lst (lg_splice g pos len)) (lg_ID (lg_splice g pos len)) =
           take ?k (zip (lg_lst g) (lg_ID g))
           @ zip (replicate (nat len) CHR ''A'') (replicate (nat len) (lg_count g))
           @ drop ?k (zip (lg_lst g) (lg_ID g))"
    using len by (simp add: lg_splice_def py_slice_to_def py_slice_from_def k take_zip drop_zip)
  have "\<forall>p \<in> set (zip (lg_lst (lg_splice g pos len)) (lg_ID (lg_splice g pos len))).
            fst p = CHR ''A'' \<longrightarrow> snd p \<in> set (lg_active_lst (lg_splice g pos len))"
    unfolding z using assms
    by (auto simp: lg_wf_def lg_splice_def set_zip dest!: in_set_takeD in_set_dropD)
  moreover have "length (lg_lst (lg_splice g pos len)) = length (lg_ID (lg_splice g pos len))"
    using len by (simp add: lg_splice_def py_slice_to_def py_slice_from_def k)
  moreover have "\<forall>t \<in> set (lg_ID (lg_splice g pos len)). t \<le> lg_count (lg_splice g pos len)"
    using assms
    by (auto simp: lg_wf_def lg_splice_def py_slice_to_def py_slice_from_def
             dest!: in_set_takeD in_set_dropD)
  moreover have "\<forall>t \<in> set (lg_active_lst (lg_splice g pos len)). t \<le> lg_count (lg_splice g pos len)"
    using assms by (auto simp: lg_wf_def lg_splice_def)
  ultimately show ?thesis by (simp add: lg_wf_def)
qed


lemma lg_bump_wf: "lg_wf g \<Longrightarrow> lg_wf (g\<lparr>lg_count := lg_count g + 1\<rparr>)"
  by (fastforce simp: lg_wf_def)

lemma lg_insert_te_wf:
  assumes "lg_wf g"
  shows "lg_wf (snd (lg_insert_te g pos len))"
proof (cases "int (length (lg_lst g)) < pos \<and> length (lg_lst g) = 0")
  case True
  with assms show ?thesis by (simp add: lg_insert_te_def)
next
  case False
  let ?g1 = "g\<lparr>lg_count := lg_count g + 1\<rparr>"
  define p where "p = (if int (length (lg_lst g)) < pos then pos mod int (length (lg_lst g)) else pos)"
  obtain r g2 where col: "lg_collide ?g1 p = (r, g2)"
    by (cases "lg_collide ?g1 p")
  from lg_collide_wf [OF lg_bump_wf [OF assms], of p] col
  have wf2: "lg_wf g2" by simp
  have "snd (lg_insert_te g pos len) = (case r of Inl e \<Rightarrow> g2 | Inr u \<Rightarrow> lg_splice g2 p len)"
    using False col by (simp add: lg_insert_te_def Let_def p_def split: sum.splits)
  then show ?thesis
    using wf2 by (simp add: lg_splice_wf split: sum.splits)
qed

lemma lg_copy_te_wf: "lg_wf g \<Longrightarrow> lg_wf (snd (lg_copy_te g te offset))"
  by (simp add: lg_copy_te_snd lg_insert_te_wf split: option.splits)

lemma lg_step_wf: "lg_wf g \<Longrightarrow> lg_wf (lg_step g x)"
  by (cases x) (simp_all add: lg_insert_te_wf lg_copy_te_wf lg_disable_te_wf)

lemma lg_run_wf: "lg_wf g \<Longrightarrow> lg_wf (lg_run g xs)"
  unfolding lg_run_def
  by (induction xs arbitrary: g) (simp_all add: lg_step_wf)

lemma lg_init_wf: "lg_wf (lg_init n)"
  by (auto simp: lg_wf_def lg_init_def set_zip)

lemma lg_reachable_wf: "lg_wf (lg_run (lg_init n) xs)"
  by (rule lg_run_wf [OF lg_init_wf])

lemma py_get_in_range: "0 \<le> i \<Longrightarrow> i < int (length xs) \<Longrightarrow> py_get xs i = Inr (xs ! nat i)"
  by (simp add: py_get_def)

lemma py_cut_in_range: "0 \<le> i \<Longrightarrow> i < int (length xs) \<Longrightarrow> py_cut xs i = nat i"
  by (simp add: py_cut_def)

lemma lg_splice_zero:
  "lg_splice g pos 0 = g\<lparr>lg_active_lst := lg_active_lst g @ [lg_count g]\<rparr>"
  by (simp add: lg_splice_def py_slice_to_def py_slice_from_def)

text \<open>
  Claim C10, as amended. Let \<open>g\<close> be an array-backed genome reached from construction by
  any operations and \<open>0 \<le> pos < length\<close>. Then \<^verbatim>\<open>insert_te(pos, 0)\<close> returns the id
  \<open>count + 1\<close>, which is not in the active list before the call and is appended to it;
  the length is unchanged and no position is owned by the new id. If position \<open>pos\<close> does
  not show \<open>A\<close>, the rendering is unchanged; if it shows \<open>A\<close>, its owner is disabled
  first, as in every insert: the owner leaves the active list and its positions show \<open>x\<close>.
\<close>

theorem lg_insert_te_zero_length:
  assumes "g = lg_run (lg_init n) ops" and "0 \<le> pos" and "pos < int (lg_len g)"
    and "g' = snd (lg_insert_te g pos 0)" and "owner = lg_ID g ! nat pos"
  shows "fst (lg_insert_te g pos 0) = Inr (lg_count g + 1)
     \<and> lg_count g + 1 \<notin> set (lg_active_tes g)
     \<and> lg_len g' = lg_len g
     \<and> count_list (lg_ID g') (lg_count g + 1) = 0
     \<and> (if lg_render g ! nat pos = CHR ''A''
        then lg_active_tes g' = remove1 owner (lg_active_tes g) @ [lg_count g + 1]
             \<and> lg_render g' = mark_owner owner (lg_render g) (lg_ID g)
        else lg_active_tes g' = lg_active_tes g @ [lg_count g + 1]
             \<and> lg_render g' = lg_render g)"
proof -
  let ?g1 = "g\<lparr>lg_count := lg_count g + 1\<rparr>"
  let ?i = "nat pos"
  have wf: "lg_wf g" unfolding assms(1) by (rule lg_reachable_wf)
  then have len: "length (lg_lst g) = length (lg_ID g)"
    and b1: "\<forall>t \<in> set (lg_active_lst g). t \<le> lg_count g"
    and b2: "\<forall>t \<in> set (lg_ID g). t \<le> lg_count g"
    and act: "\<forall>p \<in> set (zip (lg_lst g) (lg_ID g)).
                fst p = CHR ''A'' \<longrightarrow> snd p \<in> set (lg_active_lst g)"
    by (simp_all add: lg_wf_def)
  from assms(2,3) have i: "?i < length (lg_lst g)" by (simp add: lg_len_def)
  have rng: "\<not> int (length (lg_lst g)) < pos" using assms(3) by (simp add: lg_len_def)
  have get1: "py_get (lg_lst g) pos = Inr (lg_lst g ! ?i)"
    using assms(2,3) by (simp add: py_get_in_range lg_len_def)
  have get2: "py_get (lg_ID g) pos = Inr owner"
    using assms(2,3,5) len by (simp add: py_get_in_range lg_len_def)
  have fresh1: "lg_count g + 1 \<notin> set (lg_active_lst g)" using b1 by fastforce
  have fresh2: "lg_count g + 1 \<notin> set (lg_ID g)" using b2 by fastforce
  show ?thesis
  proof (cases "lg_lst g ! ?i = CHR ''A''")
    case False
    then have col: "lg_collide ?g1 pos = (Inr (), ?g1)"
      using get1 by (simp add: lg_collide_def)
    have ins: "lg_insert_te g pos 0 =
        (Inr (lg_count g + 1), g\<lparr>lg_count := lg_count g + 1,
                                  lg_active_lst := lg_active_lst g @ [lg_count g + 1]\<rparr>)"
      using rng col by (simp add: lg_insert_te_def Let_def lg_splice_zero)
    show ?thesis
      using False fresh1 fresh2
      by (simp add: ins assms(4) lg_active_tes_def lg_len_def lg_render_def)
  next
    case True
    from i len have "(lg_lst g ! ?i, lg_ID g ! ?i) \<in> set (zip (lg_lst g) (lg_ID g))"
      by (auto simp: set_zip)
    with act True assms(5) have own: "owner \<in> set (lg_active_lst g)" by fastforce
    have len1: "length (lg_lst ?g1) = length (lg_ID ?g1)" using len by simp
    have col: "lg_collide ?g1 pos =
        (Inr (), ?g1\<lparr>lg_lst := mark_owner owner (lg_lst g) (lg_ID g),
                      lg_active_lst := remove1 owner (lg_active_lst g)\<rparr>)"
      using get1 get2 True own by (simp add: lg_collide_def lg_disable_te_lockstep [OF len1])
    have ins: "lg_insert_te g pos 0 =
        (Inr (lg_count g + 1), g\<lparr>lg_count := lg_count g + 1,
                                  lg_lst := mark_owner owner (lg_lst g) (lg_ID g),
                                  lg_active_lst := remove1 owner (lg_active_lst g) @ [lg_count g + 1]\<rparr>)"
      using rng col by (simp add: lg_insert_te_def Let_def lg_splice_zero)
    show ?thesis
      using True fresh1 fresh2 len
      by (simp add: ins assms(4) lg_active_tes_def lg_len_def lg_render_def length_mark_owner)
  qed
qed

theorem lg_insert_te_zero_length_witness:
  "(0::int) \<le> 2 \<and> 2 < int (lg_len (lg_run (lg_init 3) [Insert_te 1 1]))
   \<and> fst (lg_insert_te (lg_run (lg_init 3) [Insert_te 1 1]) 2 0) = Inr 2
   \<and> lg_active_tes (snd (lg_insert_te (lg_run (lg_init 3) [Insert_te 1 1]) 2 0)) = [1, 2]
   \<and> lg_render (snd (lg_insert_te (lg_run (lg_init 3) [Insert_te 1 1]) 2 0)) = ''-A--''
   \<and> lg_len (snd (lg_insert_te (lg_run (lg_init 3) [Insert_te 1 1]) 2 0)) = 4
   \<and> count_list (lg_ID (snd (lg_insert_te (lg_run (lg_init 3) [Insert_te 1 1]) 2 0))) 2 = 0"
proof -
  let ?g = "lg_run (lg_init 3) [Insert_te 1 1]"
  have h1: "(0::int) \<le> 2" by simp
  have h2: "2 < int (lg_len ?g)" by code_simp
  have v: "lg_count ?g = 1" "lg_active_tes ?g = [1]" "lg_render ?g = ''-A--''" "lg_len ?g = 4"
    by code_simp+
  note inst = lg_insert_te_zero_length [OF refl h1 h2 refl refl]
  from inst h1 h2 show ?thesis
    by (simp add: v)
qed

text \<open>
  Claim C10 as stated promises an unchanged rendering for every in-range position. After
  \<^verbatim>\<open>insert_te(1, 1)\<close> on a genome of size 3, position 1 shows \<open>A\<close>, and
  \<^verbatim>\<open>insert_te(1, 0)\<close> changes the rendering from \<open>-A--\<close> to \<open>-x--\<close>.
\<close>

theorem lg_insert_te_zero_length_changes_render:
  "(0::int) \<le> 1 \<and> 1 < int (lg_len (lg_run (lg_init 3) [Insert_te 1 1]))
   \<and> lg_render (lg_run (lg_init 3) [Insert_te 1 1]) = ''-A--''
   \<and> lg_render (snd (lg_insert_te (lg_run (lg_init 3) [Insert_te 1 1]) 1 0)) = ''-x--''
   \<and> lg_render (snd (lg_insert_te (lg_run (lg_init 3) [Insert_te 1 1]) 1 0))
       \<noteq> lg_render (lg_run (lg_init 3) [Insert_te 1 1])"
  by code_simp


section \<open>Lockstep storage and the ring of slots\<close>

lemma length_ring_path: "length (ring_path nxt k i) = k"
  by (induction k arbitrary: i) simp_all

lemma hd_ring_path: "0 < k \<Longrightarrow> hd (ring_path nxt k i) = i"
  by (cases k) simp_all

lemma successively_ring_path: "successively (\<lambda>a b. nxt ! a = b) (ring_path nxt k i)"
proof (induction k arbitrary: i)
  case 0
  show ?case by simp
next
  case (Suc k)
  show ?case
    using Suc [of "nxt ! i"] hd_ring_path [of k nxt "nxt ! i"] length_ring_path [of nxt k "nxt ! i"]
    by (cases k) (simp_all add: successively_Cons)
qed

lemma ring_path_unique:
  "successively (\<lambda>a b. nxt ! a = b) p \<Longrightarrow> p \<noteq> [] \<Longrightarrow> ring_path nxt (length p) (hd p) = p"
proof (induction p)
  case Nil
  then show ?case by simp
next
  case (Cons a p)
  show ?case
  proof (cases p)
    case Nil
    then show ?thesis by simp
  next
    case (Cons b q)
    with Cons.prems have "nxt ! a = hd p" and "successively (\<lambda>a b. nxt ! a = b) p"
      by (simp_all add: successively_Cons)
    with Cons.IH Cons show ?thesis by simp
  qed
qed

lemma successively_butlast_mono:
  "successively P xs \<Longrightarrow> (\<And>a b. a \<in> set (butlast xs) \<Longrightarrow> P a b \<Longrightarrow> Q a b) \<Longrightarrow> successively Q xs"
  by (induction xs rule: induct_list012) auto


lemma ring_covers:
  assumes "ring nxt p" and "i < length nxt"
  shows "i \<in> set p"
proof -
  from assms(1) have "set p \<subseteq> {..<length nxt}" and "card (set p) = length nxt"
    by (auto simp: ring_def distinct_card)
  then have "set p = {..<length nxt}"
    by (intro card_subset_eq) simp_all
  with assms(2) show ?thesis by simp
qed

lemma nth_tail_upt:
  assumes "j < k"
  shows "(xs @ [a ..< a + k] @ [y]) ! (length xs + j) = a + j"
proof -
  have "(xs @ [a ..< a + k] @ [y]) ! (length xs + j) = ([a ..< a + k] @ [y]) ! j"
    by (rule nth_append_length_plus)
  also have "\<dots> = [a ..< a + k] ! j"
    using assms by (simp add: nth_append)
  also have "\<dots> = a + j"
    using assms by simp
  finally show ?thesis .
qed

lemma nth_tail_last: "(xs @ [a ..< a + k] @ [y]) ! (length xs + k) = y"
proof -
  have "(xs @ [a ..< a + k] @ [y]) ! (length xs + k) = ([a ..< a + k] @ [y]) ! k"
    by (rule nth_append_length_plus)
  then show ?thesis by (simp add: nth_append)
qed

lemma ring_splice:
  assumes r: "ring nxt p" and i: "i < length nxt" and L: "0 < L"
  shows "\<exists>q. ring (nxt[i := length nxt] @ [length nxt + 1 ..< length nxt + 1 + (L - 1)] @ [nxt ! i]) q"
proof -
  let ?n = "length nxt"
  define nxt' where "nxt' = nxt[i := ?n] @ [?n + 1 ..< ?n + 1 + (L - 1)] @ [nxt ! i]"
  let ?R = "\<lambda>a b. nxt ! a = b"
  let ?R' = "\<lambda>a b. nxt' ! a = b"
  from ring_covers [OF r i] obtain p1 p2 where p: "p = p1 @ i # p2"
    by (auto dest: split_list)
  define new where "new = [?n ..< ?n + L]"
  let ?q = "p1 @ i # new @ p2"
  from r have lp: "length p = ?n" and dp: "distinct p" and bp: "\<forall>s \<in> set p. s < ?n"
    and sp: "successively ?R p" and hp: "hd p = 0" and cp: "nxt ! last p = 0"
    using i by (auto simp: ring_def)
  have len': "length nxt' = ?n + L" using L by (simp add: nxt'_def)
  have F1: "nxt' ! a = nxt ! a" if "a < ?n" "a \<noteq> i" for a
    using that by (simp add: nxt'_def nth_append)
  have F2: "nxt' ! i = ?n"
    using i by (simp add: nxt'_def nth_append)
  have F3: "nxt' ! a = a + 1" if "?n \<le> a" "a + 1 < ?n + L" for a
  proof -
    have "a - ?n < L - 1" using that by simp
    from nth_tail_upt [OF this, of "nxt[i := ?n]" "?n + 1" "nxt ! i"] that(1)
    show ?thesis by (simp add: nxt'_def)
  qed
  have F4: "nxt' ! (?n + L - 1) = nxt ! i"
    using nth_tail_last [of "nxt[i := ?n]" "?n + 1" "L - 1" "nxt ! i"] L by (simp add: nxt'_def)
  have in1: "a < ?n \<and> a \<noteq> i" if "a \<in> set p1" for a
    using that dp bp p by auto
  have in2: "a < ?n \<and> a \<noteq> i" if "a \<in> set p2" for a
    using that dp bp p by auto
  have s1: "successively ?R (p1 @ [i])" and s2: "successively ?R p2"
    and link: "p2 \<noteq> [] \<longrightarrow> nxt ! i = hd p2"
    using sp unfolding p by (auto simp: successively_append_iff successively_Cons)
  have t1: "successively ?R' (p1 @ [i])"
    using s1 by (rule successively_butlast_mono) (simp add: F1 in1)
  have t2: "successively ?R' p2"
    using s2 by (rule successively_mono) (simp add: F1 in2)
  have t3: "successively ?R' new"
    unfolding successively_conv_nth by (simp add: F3 new_def)
  have newne: "new \<noteq> []" and hdnew: "hd new = ?n" and lastnew: "last new = ?n + L - 1"
    and setnew: "set new = {?n ..< ?n + L}" and lnew: "length new = L"
    using L by (simp_all add: new_def hd_upt last_upt)
  have t4: "successively ?R' (new @ p2)"
    using t2 t3 newne lastnew F4 link by (auto simp: successively_append_iff)
  have "successively ?R' ((p1 @ [i]) @ (new @ p2))"
    unfolding successively_append_iff [of _ "p1 @ [i]"]
    using t1 t4 newne hdnew F2 by auto
  then have sq: "successively ?R' ?q" by simp
  have lq: "length ?q = length nxt'"
    using lp lnew unfolding p len' by simp
  have dnew: "distinct new" by (simp add: new_def)
  have dq: "distinct ?q"
    using dp dnew in1 in2 i setnew unfolding p by fastforce
  have bq: "\<forall>s \<in> set ?q. s < length nxt'"
    unfolding len' using in1 in2 i setnew by fastforce
  have hq: "hd ?q = 0"
    using hp unfolding p by (cases p1) simp_all
  have cq: "nxt' ! last ?q = 0"
  proof (cases "p2 = []")
    case True
    then have "last ?q = ?n + L - 1" using lastnew newne by simp
    moreover have "last p = i" using True p by simp
    ultimately show ?thesis using F4 cp by simp
  next
    case False
    then have "last ?q = last p2" and "last p = last p2" unfolding p by simp_all
    moreover have "last p2 \<in> set p2" using False by simp
    ultimately show ?thesis using F1 in2 cp by simp
  qed
  have "ring nxt' ?q"
    unfolding ring_def using lq dq bq sq hq cq by blast
  then show ?thesis unfolding nxt'_def ..
qed


lemma ring_is_ring_path: "ring nxt p \<Longrightarrow> ring_path nxt (length nxt) 0 = p"
proof (cases "p = []")
  case True
  assume "ring nxt p"
  with True show ?thesis by (simp add: ring_def)
next
  case False
  assume "ring nxt p"
  with False have "successively (\<lambda>a b. nxt ! a = b) p" "hd p = 0" "length p = length nxt"
    by (simp_all add: ring_def)
  with ring_path_unique [of nxt p] False show ?thesis by simp
qed

lemma ll_lockstep_iff:
  "ll_lockstep g \<longleftrightarrow>
     length (ll_lst g) = length (ll_index_next g) \<and> length (ll_ID g) = length (ll_index_next g)
     \<and> (\<exists>p. ring (ll_index_next g) p)"
proof
  assume a: "ll_lockstep g"
  let ?nxt = "ll_index_next g"
  let ?p = "ring_path ?nxt (length ?nxt) 0"
  from a have len: "length (ll_lst g) = length ?nxt" "length (ll_ID g) = length ?nxt"
    by (simp_all add: ll_lockstep_def Let_def)
  with a have "distinct ?p" "\<forall>s \<in> set ?p. s < length ?nxt" "0 < length ?nxt \<longrightarrow> ?nxt ! last ?p = 0"
    by (simp_all add: ll_lockstep_def Let_def)
  moreover have "?p \<noteq> [] \<longrightarrow> hd ?p = 0"
    using hd_ring_path [of "length ?nxt" ?nxt 0] length_ring_path [of ?nxt "length ?nxt" 0]
    by (cases "length ?nxt") auto
  moreover have "?p \<noteq> [] \<longrightarrow> 0 < length ?nxt"
    using length_ring_path [of ?nxt "length ?nxt" 0] by (cases "length ?nxt") auto
  ultimately have "ring ?nxt ?p"
    by (simp add: ring_def length_ring_path successively_ring_path)
  with len show "length (ll_lst g) = length ?nxt \<and> length (ll_ID g) = length ?nxt \<and> (\<exists>p. ring ?nxt p)"
    by blast
next
  assume b: "length (ll_lst g) = length (ll_index_next g) \<and> length (ll_ID g) = length (ll_index_next g)
     \<and> (\<exists>p. ring (ll_index_next g) p)"
  then obtain p where r: "ring (ll_index_next g) p" by blast
  from ring_is_ring_path [OF r] r b show "ll_lockstep g"
    by (auto simp: ll_lockstep_def Let_def ring_def)
qed

lemma length_disable_loop: "length (fst (disable_loop te ids cs)) = length cs"
  by (induction te ids cs rule: disable_loop.induct) (auto split: prod.splits)

lemma ll_disable_te_shape:
  "ll_index_next (snd (ll_disable_te g te)) = ll_index_next g"
  "length (ll_lst (snd (ll_disable_te g te))) = length (ll_lst g)"
  "ll_ID (snd (ll_disable_te g te)) = ll_ID g"
  using length_disable_loop [of te "ll_ID g" "ll_lst g"]
  by (auto simp: ll_disable_te_def split: prod.splits option.splits)

lemma ll_collide_shape:
  "ll_index_next (snd (ll_collide g i)) = ll_index_next g"
  "length (ll_lst (snd (ll_collide g i))) = length (ll_lst g)"
  "ll_ID (snd (ll_collide g i)) = ll_ID g"
  by (simp_all add: ll_collide_def ll_disable_te_shape)

lemma ll_lockstep_shape:
  "ll_index_next g' = ll_index_next g \<Longrightarrow> length (ll_lst g') = length (ll_lst g) \<Longrightarrow>
   length (ll_ID g') = length (ll_ID g) \<Longrightarrow> ll_lockstep g' = ll_lockstep g"
  by (simp add: ll_lockstep_def)

lemma ll_splice_lockstep:
  assumes "ll_lockstep g" and "i < length (ll_lst g)" and "1 \<le> len"
  shows "ll_lockstep (snd (ll_splice g i len))"
proof -
  let ?nxt = "ll_index_next g"
  from assms(1) obtain p where len: "length (ll_lst g) = length ?nxt" "length (ll_ID g) = length ?nxt"
    and r: "ring ?nxt p"
    unfolding ll_lockstep_iff by blast
  from assms(2) len have i: "i < length ?nxt" by simp
  from assms(3) have L: "0 < nat len" and L1: "nat (len - 1) = nat len - 1" by simp_all
  let ?g' = "snd (ll_splice g i len)"
  have nxt': "ll_index_next ?g' =
      ?nxt[i := length ?nxt] @ [length ?nxt + 1 ..< length ?nxt + 1 + (nat len - 1)] @ [?nxt ! i]"
    using i len by (simp add: ll_splice_def Let_def L1)
  have l1: "length (ll_lst ?g') = length ?nxt + nat len"
    and l2: "length (ll_ID ?g') = length ?nxt + nat len"
    using i len by (simp_all add: ll_splice_def Let_def)
  have l3: "length (ll_index_next ?g') = length ?nxt + nat len"
    unfolding nxt' using L by simp
  from ring_splice [OF r i L] have "\<exists>q. ring (ll_index_next ?g') q"
    unfolding nxt' .
  with l1 l2 l3 show ?thesis
    unfolding ll_lockstep_iff by simp
qed


lemma ll_insert_te_lockstep:
  assumes "ll_lockstep g" and "1 \<le> len"
  shows "ll_lockstep (snd (ll_insert_te g pos len))"
proof -
  let ?g1 = "g\<lparr>ll_count := ll_count g + 1\<rparr>"
  have g1: "ll_lockstep ?g1"
    using assms(1) by (simp add: ll_lockstep_shape [of ?g1 g])
  show ?thesis
  proof (cases "walk (ll_index_next ?g1) (nat (pos - 1)) 0")
    case (Inl e)
    then show ?thesis using g1 by (simp add: ll_insert_te_def)
  next
    case (Inr i)
    obtain r g2 where col: "ll_collide ?g1 i = (r, g2)"
      by (cases "ll_collide ?g1 i")
    have sh: "ll_index_next g2 = ll_index_next ?g1" "length (ll_lst g2) = length (ll_lst ?g1)"
      "length (ll_ID g2) = length (ll_ID ?g1)"
      using ll_collide_shape [of ?g1 i] col by simp_all
    have g2: "ll_lockstep g2"
      using g1 ll_lockstep_shape [OF sh(1) sh(2) sh(3)] by simp
    have ins: "snd (ll_insert_te g pos len) = (case r of Inl e \<Rightarrow> g2 | Inr u \<Rightarrow> snd (ll_splice g2 i len))"
      using Inr col by (simp add: ll_insert_te_def Let_def split: sum.splits prod.splits)
    show ?thesis
    proof (cases r)
      case (Inl e)
      with ins g2 show ?thesis by simp
    next
      case (Inr u)
      with col have "i < length (ll_lst ?g1)"
        by (auto simp: ll_collide_def split: if_splits)
      with sh have "i < length (ll_lst g2)" by simp
      from ll_splice_lockstep [OF g2 this assms(2)] ins Inr show ?thesis by simp
    qed
  qed
qed

lemma seek_te_result:
  assumes "seek_te ids nxt te i c = Some y"
  shows "\<forall>j k. y = Inr (j, k) \<longrightarrow> j < length ids \<and> ids ! j = te"
  using assms
  by (rule seek_te.raw_induct [rotated 1,
        where P = "\<lambda>ids nxt te i c y. \<forall>j k. y = Inr (j, k) \<longrightarrow> j < length ids \<and> ids ! j = te"])
     (auto split: if_splits)

lemma seek_te_found:
  "seek_te ids nxt te i c = Some (Inr (j, k)) \<Longrightarrow> j < length ids \<and> ids ! j = te"
  using seek_te_result by blast

lemma span_te_result:
  assumes "span_te ids nxt te i c = Some y"
  shows "\<forall>j k. y = Inr (j, k) \<longrightarrow> c \<le> k"
  using assms
  by (rule span_te.raw_induct [rotated 1,
        where P = "\<lambda>ids nxt te i c y. \<forall>j k. y = Inr (j, k) \<longrightarrow> c \<le> k"])
     (fastforce split: if_splits)

lemma span_te_count:
  "span_te ids nxt te i c = Some (Inr (j, k)) \<Longrightarrow> c \<le> k"
  using span_te_result by blast

lemma span_te_positive:
  assumes "span_te ids nxt te i 0 = Some (Inr (j, k))" and "i < length ids" and "ids ! i = te"
  shows "1 \<le> k"
proof -
  from assms have "span_te ids nxt te (nxt ! i) (0 + 1) = Some (Inr (j, k))"
    by (subst (asm) span_te.simps) (simp split: if_splits)
  from span_te_count [OF this] show ?thesis by simp
qed

lemma ll_copy_te_cases:
  assumes "ll_copy_te g te offset = Some (r, g')"
  shows "g' = g \<or> (\<exists>pos len. 1 \<le> len \<and> g' = snd (ll_insert_te g pos len))"
proof (cases "te \<in> set (ll_active_lst g)")
  case False
  with assms show ?thesis by (simp add: ll_copy_te_def)
next
  case True
  show ?thesis
  proof (cases "seek_te (ll_ID g) (ll_index_next g) te 0 0")
    case None
    with True assms show ?thesis by (simp add: ll_copy_te_def)
  next
    case (Some a)
    show ?thesis
    proof (cases a)
      case (Inl e)
      with True Some assms show ?thesis by (simp add: ll_copy_te_def)
    next
      case (Inr b)
      obtain i te_pos where b: "b = (i, te_pos)" by (cases b)
      from Some Inr b have sk: "seek_te (ll_ID g) (ll_index_next g) te 0 0 = Some (Inr (i, te_pos))"
        by simp
      show ?thesis
      proof (cases "span_te (ll_ID g) (ll_index_next g) te i 0")
        case None
        with True sk assms show ?thesis by (simp add: ll_copy_te_def)
      next
        case (Some a2)
        show ?thesis
        proof (cases a2)
          case (Inl e)
          with True sk Some assms show ?thesis by (simp add: ll_copy_te_def)
        next
          case (Inr b2)
          obtain j cnt where b2: "b2 = (j, cnt)" by (cases b2)
          from Some Inr b2 have sp: "span_te (ll_ID g) (ll_index_next g) te i 0 = Some (Inr (j, cnt))"
            by simp
          from seek_te_found [OF sk] span_te_positive [OF sp] have "1 \<le> int cnt" by simp
          moreover have "g' = snd (ll_insert_te g
                  (int (length (ll_index_next g)) + (int te_pos + offset)) (int cnt))"
            using True sk sp assms
            by (auto simp: ll_copy_te_def split: prod.splits sum.splits)
          ultimately show ?thesis by blast
        qed
      qed
    qed
  qed
qed

lemma ll_copy_te_lockstep:
  assumes "ll_lockstep g" and "ll_copy_te g te offset = Some (r, g')"
  shows "ll_lockstep g'"
  using ll_copy_te_cases [OF assms(2)] assms(1) ll_insert_te_lockstep [OF assms(1)]
  by auto

lemma ll_disable_te_lockstep: "ll_lockstep g \<Longrightarrow> ll_lockstep (snd (ll_disable_te g te))"
  using ll_lockstep_shape [OF ll_disable_te_shape(1) ll_disable_te_shape(2), of g te]
  by (simp add: ll_disable_te_shape)

lemma seek_te_returns:
  assumes "successively (\<lambda>a b. nxt ! a = b) p" and "p \<noteq> []"
    and "\<forall>s \<in> set p. s < length ids \<and> s < length nxt"
    and "\<exists>s \<in> set p. ids ! s = te"
  shows "\<exists>j k. seek_te ids nxt te (hd p) c = Some (Inr (j, k))"
  using assms
proof (induction p arbitrary: c)
  case Nil
  then show ?case by simp
next
  case (Cons a p)
  show ?case
  proof (cases "ids ! a = te")
    case True
    with Cons.prems(3) show ?thesis
      by (subst seek_te.simps) simp
  next
    case False
    with Cons.prems(4) have ex: "\<exists>s \<in> set p. ids ! s = te" by auto
    then have ne: "p \<noteq> []" by auto
    with Cons.prems(1) have link: "nxt ! a = hd p" and s: "successively (\<lambda>a b. nxt ! a = b) p"
      by (simp_all add: successively_Cons)
    from Cons.prems(3) have b: "\<forall>s \<in> set p. s < length ids \<and> s < length nxt" by simp
    from Cons.IH [OF s ne b ex, of "c + 1"] obtain j k
      where "seek_te ids nxt te (hd p) (c + 1) = Some (Inr (j, k))" by blast
    with False link Cons.prems(3) show ?thesis
      by (subst seek_te.simps) simp
  qed
qed

lemma span_te_returns:
  assumes "successively (\<lambda>a b. nxt ! a = b) p" and "p \<noteq> []"
    and "\<forall>s \<in> set p. s < length ids \<and> s < length nxt"
    and "\<exists>s \<in> set p. ids ! s \<noteq> te"
  shows "\<exists>j k. span_te ids nxt te (hd p) c = Some (Inr (j, k))"
  using assms
proof (induction p arbitrary: c)
  case Nil
  then show ?case by simp
next
  case (Cons a p)
  show ?case
  proof (cases "ids ! a \<noteq> te")
    case True
    with Cons.prems(3) show ?thesis
      by (subst span_te.simps) simp
  next
    case False
    with Cons.prems(4) have ex: "\<exists>s \<in> set p. ids ! s \<noteq> te" by auto
    then have ne: "p \<noteq> []" by auto
    with Cons.prems(1) have link: "nxt ! a = hd p" and s: "successively (\<lambda>a b. nxt ! a = b) p"
      by (simp_all add: successively_Cons)
    from Cons.prems(3) have b: "\<forall>s \<in> set p. s < length ids \<and> s < length nxt" by simp
    from Cons.IH [OF s ne b ex, of "c + 1"] obtain j k
      where "span_te ids nxt te (hd p) (c + 1) = Some (Inr (j, k))" by blast
    with False link Cons.prems(3) show ?thesis
      by (subst span_te.simps) simp
  qed
qed

text \<open>A ring can be entered at any of its slots: the slots from \<open>i\<close> on, then those before it.\<close>

lemma ring_rotate:
  assumes "ring nxt (p1 @ i # p2)"
  shows "successively (\<lambda>a b. nxt ! a = b) (i # p2 @ p1)"
proof -
  let ?R = "\<lambda>a b. nxt ! a = b"
  from assms have s: "successively ?R (p1 @ i # p2)"
    and h: "hd (p1 @ i # p2) = 0" and c: "nxt ! last (p1 @ i # p2) = 0"
    by (simp_all add: ring_def)
  from s have s1: "successively ?R p1" and s2: "successively ?R (i # p2)"
    by (simp_all add: successively_append_iff)
  show ?thesis
  proof (cases "p1 = []")
    case True
    with s2 show ?thesis by simp
  next
    case False
    with h have "hd p1 = 0" by simp
    moreover from c have "nxt ! last (i # p2) = 0" by simp
    ultimately have "successively ?R ((i # p2) @ p1)"
      unfolding successively_append_iff using s1 s2 False by simp
    then show ?thesis by simp
  qed
qed


lemma ll_owned_iff:
  "ll_owned g \<longleftrightarrow>
     0 \<le> ll_count g \<and> (\<forall>t \<in> set (ll_active_lst g). 1 \<le> t \<and> t \<in> set (ll_ID g))
     \<and> (ll_ID g = [] \<or> ll_ID g ! 0 = 0)"
  by (simp add: ll_owned_def list_all_iff)

lemma ll_disable_te_owned: "ll_owned g \<Longrightarrow> ll_owned (snd (ll_disable_te g te))"
  unfolding ll_owned_iff
  by (auto simp: ll_disable_te_def split: prod.splits option.splits dest: notin_set_remove1)

lemma ll_collide_owned: "ll_owned g \<Longrightarrow> ll_owned (snd (ll_collide g i))"
  by (simp add: ll_collide_def ll_disable_te_owned)

lemma ll_splice_owned:
  assumes "ll_owned g" and "1 \<le> ll_count g" and "1 \<le> len" and "ll_ID g \<noteq> []"
  shows "ll_owned (snd (ll_splice g i len))"
proof (cases "length (ll_index_next g) \<le> i")
  case True
  with assms(1) show ?thesis by (simp add: ll_splice_def)
next
  case False
  from assms(3) have "0 < nat len" by simp
  then have "ll_count g \<in> set (replicate (nat len) (ll_count g))" by simp
  with False assms(1,2,4) show ?thesis
    unfolding ll_owned_iff by (auto simp: ll_splice_def Let_def nth_append)
qed

lemma ll_insert_te_owned:
  assumes "ll_owned g" and "1 \<le> len" and "length (ll_ID g) = length (ll_lst g)"
  shows "ll_owned (snd (ll_insert_te g pos len))"
proof -
  let ?g1 = "g\<lparr>ll_count := ll_count g + 1\<rparr>"
  from assms(1) have g1: "ll_owned ?g1" and c1: "1 \<le> ll_count ?g1"
    by (simp_all add: ll_owned_iff)
  show ?thesis
  proof (cases "walk (ll_index_next ?g1) (nat (pos - 1)) 0")
    case (Inl e)
    then show ?thesis using g1 by (simp add: ll_insert_te_def)
  next
    case (Inr i)
    obtain r g2 where col: "ll_collide ?g1 i = (r, g2)"
      by (cases "ll_collide ?g1 i")
    from ll_collide_owned [OF g1, of i] col have g2: "ll_owned g2" by simp
    from ll_collide_count [of ?g1 i] col c1 have c2: "1 \<le> ll_count g2" by simp
    have ins: "snd (ll_insert_te g pos len) = (case r of Inl e \<Rightarrow> g2 | Inr u \<Rightarrow> snd (ll_splice g2 i len))"
      using Inr col by (simp add: ll_insert_te_def Let_def split: sum.splits prod.splits)
    show ?thesis
    proof (cases r)
      case (Inl e)
      with ins g2 show ?thesis by simp
    next
      case (Inr u)
      with col have "i < length (ll_lst ?g1)"
        by (auto simp: ll_collide_def split: if_splits)
      with assms(3) have "ll_ID ?g1 \<noteq> []" by auto
      with ll_collide_shape(3) [of ?g1 i] col have "ll_ID g2 \<noteq> []" by simp
      from ll_splice_owned [OF g2 c2 assms(2) this] ins Inr show ?thesis by simp
    qed
  qed
qed

lemma ll_copy_te_returns:
  assumes "ll_lockstep g" and "ll_owned g"
  shows "\<exists>r g'. ll_copy_te g te offset = Some (r, g')"
proof (cases "te \<in> set (ll_active_lst g)")
  case False
  then show ?thesis by (simp add: ll_copy_te_def)
next
  case True
  let ?nxt = "ll_index_next g" and ?ids = "ll_ID g"
  let ?R = "\<lambda>a b. ?nxt ! a = b"
  from assms(1) obtain p where len: "length (ll_lst g) = length ?nxt" "length ?ids = length ?nxt"
    and r: "ring ?nxt p"
    unfolding ll_lockstep_iff by blast
  from assms(2) True have te: "1 \<le> te" "te \<in> set ?ids" and z: "?ids = [] \<or> ?ids ! 0 = 0"
    by (auto simp: ll_owned_iff)
  from te(2) obtain s where s: "s < length ?ids" "?ids ! s = te"
    by (auto simp: in_set_conv_nth)
  from te(2) z have z0: "?ids ! 0 = 0" and pos: "0 < length ?nxt" using len by auto
  from r have rng: "\<forall>a \<in> set p. a < length ?ids \<and> a < length ?nxt"
    and sp: "successively ?R p" and lp: "length p = length ?nxt"
    using len by (auto simp: ring_def)
  from lp pos have pne: "p \<noteq> []" by auto
  with r have hp: "hd p = 0" by (simp add: ring_def)
  from ring_covers [OF r] s len have "s \<in> set p" by simp
  with s have "\<exists>a \<in> set p. ?ids ! a = te" by blast
  from seek_te_returns [OF sp pne rng this, of 0] hp obtain i te_pos
    where sk: "seek_te ?ids ?nxt te 0 0 = Some (Inr (i, te_pos))" by auto
  from seek_te_found [OF sk] have i: "i < length ?ids" "?ids ! i = te" by simp_all
  from ring_covers [OF r] i len have "i \<in> set p" by simp
  then obtain p1 p2 where p: "p = p1 @ i # p2"
    by (auto dest: split_list)
  let ?q = "i # p2 @ p1"
  from r have sq: "successively ?R ?q" unfolding p by (rule ring_rotate)
  have setq: "set ?q = set p" unfolding p by auto
  from hp pne have "0 \<in> set p" by (metis hd_in_set)
  with z0 te(1) setq have "\<exists>a \<in> set ?q. ?ids ! a \<noteq> te" by force
  from span_te_returns [OF sq _ _ this, of 0] rng setq obtain j cnt
    where spn: "span_te ?ids ?nxt te i 0 = Some (Inr (j, cnt))" by auto
  show ?thesis
    using True sk spn by (simp add: ll_copy_te_def split: prod.splits sum.splits)
qed

lemma ll_copy_te_owned:
  assumes "ll_lockstep g" and "ll_owned g" and "ll_copy_te g te offset = Some (r, g')"
  shows "ll_owned g'"
proof -
  from assms(1) have len: "length (ll_ID g) = length (ll_lst g)"
    by (simp add: ll_lockstep_iff)
  from ll_copy_te_cases [OF assms(3)] assms(2) ll_insert_te_owned [OF assms(2) _ len]
  show ?thesis by auto
qed

lemma ll_step_returns:
  assumes "ll_lockstep g" and "ll_owned g" and "positive_len x"
  shows "\<exists>g'. ll_step g x = Some g' \<and> ll_lockstep g' \<and> ll_owned g'"
proof (cases x)
  case (Insert_te pos len)
  from assms(1) have "length (ll_ID g) = length (ll_lst g)"
    by (simp add: ll_lockstep_iff)
  with Insert_te assms ll_insert_te_lockstep [of g len pos] ll_insert_te_owned [of g len pos]
  show ?thesis by simp
next
  case (Copy_te te offset)
  from ll_copy_te_returns [OF assms(1,2), of te offset] obtain r g'
    where c: "ll_copy_te g te offset = Some (r, g')" by blast
  from ll_copy_te_lockstep [OF assms(1) c] ll_copy_te_owned [OF assms(1,2) c] c Copy_te
  show ?thesis by simp
next
  case (Disable_te te)
  with assms ll_disable_te_lockstep [of g te] ll_disable_te_owned [of g te]
  show ?thesis by simp
qed

lemma ll_run_returns:
  "ll_lockstep g \<Longrightarrow> ll_owned g \<Longrightarrow> list_all positive_len xs \<Longrightarrow>
   \<exists>g'. ll_run g xs = Some g' \<and> ll_lockstep g' \<and> ll_owned g'"
proof (induction xs arbitrary: g)
  case Nil
  then show ?case by simp
next
  case (Cons x xs)
  from Cons.prems(3) have px: "positive_len x" and pxs: "list_all positive_len xs" by simp_all
  from ll_step_returns [OF Cons.prems(1,2) px] obtain g1
    where s: "ll_step g x = Some g1" and i1: "ll_lockstep g1" "ll_owned g1" by blast
  from Cons.IH [OF i1 pxs] s show ?case by simp
qed

lemma ll_init_owned: "ll_owned (ll_init n)"
  by (cases "nat n") (simp_all add: ll_owned_def ll_init_def)

lemma ll_init_lockstep: "ll_lockstep (ll_init n)"
proof -
  let ?m = "nat n"
  let ?nxt = "map (\<lambda>i. (i + 1) mod ?m) [0..<?m]"
  have "successively (\<lambda>a b. ?nxt ! a = b) [0..<?m]"
    unfolding successively_conv_nth by simp
  moreover have "[0..<?m] \<noteq> [] \<longrightarrow> hd [0..<?m] = 0 \<and> ?nxt ! last [0..<?m] = 0"
    by (simp add: hd_upt last_upt)
  ultimately have "ring ?nxt [0..<?m]"
    by (simp add: ring_def)
  then have "\<exists>p. ring (ll_index_next (ll_init n)) p"
    unfolding ll_init_def by auto
  then show ?thesis
    unfolding ll_lockstep_iff by (simp add: ll_init_def)
qed



text \<open>
  Claim C9 (lockstep storage). After construction with any size and after any sequence of
  operations whose insert lengths are at least 1, the array-backed genome has a symbol list
  and an owner list of equal length; every call on the linked-slot genome returns, and the
  genome has symbol, owner and next-handle lists of one length \<open>m\<close> such that following the
  next handles from slot 0 visits \<open>m\<close> distinct slots and then returns to slot 0.
\<close>

theorem lockstep_storage:
  assumes "list_all positive_len ops"
  shows "lg_lockstep (lg_run (lg_init n) ops)
         \<and> (\<exists>g. ll_run (ll_init n) ops = Some g \<and> ll_lockstep g)"
proof
  show "lg_lockstep (lg_run (lg_init n) ops)"
    using lg_reachable_wf [of n ops] by (simp add: lg_lockstep_def lg_wf_def)
  from ll_run_returns [OF ll_init_lockstep ll_init_owned assms]
  show "\<exists>g. ll_run (ll_init n) ops = Some g \<and> ll_lockstep g"
    by blast
qed

theorem lockstep_storage_witness:
  "list_all positive_len [Insert_te 1 2, Copy_te 1 2, Disable_te 2]
   \<and> lg_lockstep (lg_run (lg_init 3) [Insert_te 1 2, Copy_te 1 2, Disable_te 2])
   \<and> ll_run (ll_init 3) [Insert_te 1 2, Copy_te 1 2, Disable_te 2]
       = Some \<lparr>ll_lst = ''---xxxx'', ll_index_next = [3, 2, 0, 4, 5, 6, 1],
                ll_ID = [0, 0, 0, 1, 1, 2, 2], ll_active_lst = [], ll_count = 2\<rparr>
   \<and> ll_lockstep \<lparr>ll_lst = ''---xxxx'', ll_index_next = [3, 2, 0, 4, 5, 6, 1],
                ll_ID = [0, 0, 0, 1, 1, 2, 2], ll_active_lst = [], ll_count = 2\<rparr>
   \<and> ring_path [3, 2, 0, 4, 5, 6, 1] 7 0 = [0, 3, 4, 5, 6, 1, 2]"
proof -
  have h: "list_all positive_len [Insert_te 1 2, Copy_te 1 2, Disable_te 2]"
    by simp
  have r: "ll_run (ll_init 3) [Insert_te 1 2, Copy_te 1 2, Disable_te 2]
       = Some \<lparr>ll_lst = ''---xxxx'', ll_index_next = [3, 2, 0, 4, 5, 6, 1],
                ll_ID = [0, 0, 0, 1, 1, 2, 2], ll_active_lst = [], ll_count = 2\<rparr>"
    by code_simp
  have p: "ring_path [3, 2, 0, 4, 5, 6, 1] 7 0 = [0, 3, 4, 5, 6, 1, 2]"
    by code_simp
  from lockstep_storage [OF h, of 3]
  have a: "lg_lockstep (lg_run (lg_init 3) [Insert_te 1 2, Copy_te 1 2, Disable_te 2])"
    and "\<exists>g. ll_run (ll_init 3) [Insert_te 1 2, Copy_te 1 2, Disable_te 2] = Some g
             \<and> ll_lockstep g"
    by simp_all
  with r have b: "ll_lockstep \<lparr>ll_lst = ''---xxxx'', ll_index_next = [3, 2, 0, 4, 5, 6, 1],
                ll_ID = [0, 0, 0, 1, 1, 2, 2], ll_active_lst = [], ll_count = 2\<rparr>"
    by auto
  from h a r b p show ?thesis
    by (intro conjI)
qed


section \<open>The array-backed insert at in-range positions\<close>

lemma lg_distinct_iff:
  "lg_distinct g \<longleftrightarrow> distinct (lg_active_lst g) \<and> (\<forall>t \<in> set (lg_active_lst g). t \<le> lg_count g)"
  by (simp add: lg_distinct_def list_all_iff)

lemma lg_disable_te_distinct: "lg_distinct g \<Longrightarrow> lg_distinct (snd (lg_disable_te g te))"
  unfolding lg_distinct_iff
  by (auto simp: lg_disable_te_def split: prod.splits option.splits dest: notin_set_remove1)

lemma lg_collide_distinct: "lg_distinct g \<Longrightarrow> lg_distinct (snd (lg_collide g pos))"
  by (simp add: lg_collide_def lg_disable_te_distinct split: sum.splits)

lemma lg_disable_te_active:
  "set (lg_active_lst (snd (lg_disable_te g te))) \<subseteq> set (lg_active_lst g)"
proof -
  obtain cs e where "disable_loop te (lg_ID g) (lg_lst g) = (cs, e)"
    by (cases "disable_loop te (lg_ID g) (lg_lst g)")
  then show ?thesis
    using set_remove1_subset [of te "lg_active_lst g"]
    by (cases e) (simp_all add: lg_disable_te_def)
qed

lemma lg_collide_active:
  "set (lg_active_lst (snd (lg_collide g pos))) \<subseteq> set (lg_active_lst g)"
  by (simp add: lg_collide_def lg_disable_te_active split: sum.splits)

lemma lg_insert_te_distinct:
  assumes "lg_distinct g"
  shows "lg_distinct (snd (lg_insert_te g pos len))"
proof (cases "int (length (lg_lst g)) < pos \<and> length (lg_lst g) = 0")
  case True
  with assms show ?thesis by (simp add: lg_insert_te_def)
next
  case False
  let ?g1 = "g\<lparr>lg_count := lg_count g + 1\<rparr>"
  define p where "p = (if int (length (lg_lst g)) < pos then pos mod int (length (lg_lst g)) else pos)"
  obtain r g2 where col: "lg_collide ?g1 p = (r, g2)"
    by (cases "lg_collide ?g1 p")
  from assms have g1: "lg_distinct ?g1" and f1: "\<forall>t \<in> set (lg_active_lst ?g1). t < lg_count ?g1"
    by (fastforce simp: lg_distinct_iff)+
  from lg_collide_distinct [OF g1, of p] col have g2: "lg_distinct g2" by simp
  from lg_collide_active [of ?g1 p] lg_collide_count [of ?g1 p] col f1
  have f2: "\<forall>t \<in> set (lg_active_lst g2). t < lg_count g2" by auto
  have "lg_distinct (lg_splice g2 p len)"
    using g2 f2 unfolding lg_distinct_iff by (fastforce simp: lg_splice_def)
  moreover
  have "snd (lg_insert_te g pos len) = (case r of Inl e \<Rightarrow> g2 | Inr u \<Rightarrow> lg_splice g2 p len)"
    using False col by (simp add: lg_insert_te_def Let_def p_def split: sum.splits)
  ultimately show ?thesis
    using g2 by (simp split: sum.splits)
qed

lemma lg_copy_te_distinct: "lg_distinct g \<Longrightarrow> lg_distinct (snd (lg_copy_te g te offset))"
  by (simp add: lg_copy_te_snd lg_insert_te_distinct split: option.splits)

lemma lg_step_distinct: "lg_distinct g \<Longrightarrow> lg_distinct (lg_step g x)"
  by (cases x) (simp_all add: lg_insert_te_distinct lg_copy_te_distinct lg_disable_te_distinct)

lemma lg_reachable_distinct: "lg_distinct (lg_run (lg_init n) xs)"
proof -
  have "lg_distinct g \<Longrightarrow> lg_distinct (lg_run g xs)" for g
    unfolding lg_run_def by (induction xs arbitrary: g) (simp_all add: lg_step_distinct)
  moreover have "lg_distinct (lg_init n)" by (simp add: lg_distinct_def lg_init_def)
  ultimately show ?thesis by blast
qed

text \<open>The array-backed insert at an in-range position, in full.\<close>

lemma lg_insert_te_in_range:
  assumes wf: "lg_wf g" and rng: "0 \<le> pos" "pos < int (length (lg_lst g))"
  defines "owner \<equiv> lg_ID g ! nat pos"
  defines "hit \<equiv> lg_lst g ! nat pos = CHR ''A''"
  defines "marked \<equiv> (if hit then mark_owner owner (lg_lst g) (lg_ID g) else lg_lst g)"
  shows "lg_insert_te g pos len =
     (Inr (lg_count g + 1),
      \<lparr> lg_lst = take (nat pos) marked @ replicate (nat len) CHR ''A'' @ drop (nat pos) marked,
        lg_ID = take (nat pos) (lg_ID g) @ replicate (nat len) (lg_count g + 1)
                 @ drop (nat pos) (lg_ID g),
        lg_active_lst = (if hit then remove1 owner (lg_active_lst g) else lg_active_lst g)
                         @ [lg_count g + 1],
        lg_count = lg_count g + 1 \<rparr>)"
proof -
  let ?g1 = "g\<lparr>lg_count := lg_count g + 1\<rparr>"
  let ?i = "nat pos"
  from wf have len: "length (lg_lst g) = length (lg_ID g)"
    and act: "\<forall>p \<in> set (zip (lg_lst g) (lg_ID g)).
                fst p = CHR ''A'' \<longrightarrow> snd p \<in> set (lg_active_lst g)"
    by (simp_all add: lg_wf_def)
  from rng have i: "?i < length (lg_lst g)" by simp
  have nrng: "\<not> int (length (lg_lst g)) < pos" using rng by simp
  have get1: "py_get (lg_lst g) pos = Inr (lg_lst g ! ?i)"
    using rng by (simp add: py_get_in_range)
  have get2: "py_get (lg_ID g) pos = Inr owner"
    using rng len by (simp add: py_get_in_range owner_def)
  have cut1: "py_cut (lg_lst g) pos = ?i" using rng by (simp add: py_cut_in_range)
  have cut2: "py_cut (lg_ID g) pos = ?i" using rng len by (simp add: py_cut_in_range)
  have cut3: "py_cut (mark_owner owner (lg_lst g) (lg_ID g)) pos = ?i"
    using rng len by (simp add: py_cut_in_range length_mark_owner)
  have len1: "length (lg_lst ?g1) = length (lg_ID ?g1)" using len by simp
  show ?thesis
  proof (cases hit)
    case False
    then have col: "lg_collide ?g1 pos = (Inr (), ?g1)"
      using get1 by (simp add: lg_collide_def hit_def)
    show ?thesis
      using nrng col False
      by (simp add: lg_insert_te_def Let_def lg_splice_def py_slice_to_def py_slice_from_def
                    cut1 cut2 marked_def)
  next
    case True
    from i len have "(lg_lst g ! ?i, lg_ID g ! ?i) \<in> set (zip (lg_lst g) (lg_ID g))"
      by (auto simp: set_zip)
    with act True have own: "owner \<in> set (lg_active_lst g)"
      by (fastforce simp: hit_def owner_def)
    have col: "lg_collide ?g1 pos =
        (Inr (), ?g1\<lparr>lg_lst := mark_owner owner (lg_lst g) (lg_ID g),
                      lg_active_lst := remove1 owner (lg_active_lst g)\<rparr>)"
      using get1 get2 True own
      by (simp add: lg_collide_def lg_disable_te_lockstep [OF len1] hit_def)
    show ?thesis
      using nrng col True
      by (simp add: lg_insert_te_def Let_def lg_splice_def py_slice_to_def py_slice_from_def
                    cut2 cut3 marked_def)
  qed
qed


text \<open>
  At every in-range position the array-backed insert returns the next id, grows the length
  by the length inserted and shows that many \<open>A\<close> from the position on.
\<close>

lemma lg_insert_te_grows:
  assumes "g = lg_run (lg_init n) ops" and "0 \<le> pos" and "pos < int (lg_len g)"
    and "g' = snd (lg_insert_te g pos len)"
  shows "fst (lg_insert_te g pos len) = Inr (lg_count g + 1)
         \<and> lg_len g' = lg_len g + nat len
         \<and> take (nat len) (drop (nat pos) (lg_render g')) = replicate (nat len) CHR ''A''"
proof -
  have wf: "lg_wf g" unfolding assms(1) by (rule lg_reachable_wf)
  then have len: "length (lg_lst g) = length (lg_ID g)" by (simp add: lg_wf_def)
  from assms(2,3) have i: "nat pos < length (lg_lst g)" by (simp add: lg_len_def)
  have m: "length (mark_owner t (lg_lst g) (lg_ID g)) = length (lg_lst g)" for t
    using len by (simp add: length_mark_owner)
  from assms(3) have rng: "pos < int (length (lg_lst g))" by (simp add: lg_len_def)
  note ins = lg_insert_te_in_range [OF wf assms(2) rng, of len]
  show ?thesis
    using i m unfolding assms(4) ins
    by (simp add: lg_len_def lg_render_def min_absorb2)
qed

text \<open>
  At an in-range position that shows \<open>A\<close> the array-backed insert disables the whole TE
  that owns it: the owner leaves the active list and each of its positions shows \<open>x\<close>.
\<close>

lemma lg_insert_te_disables_owner:
  assumes "g = lg_run (lg_init n) ops" and "0 \<le> pos" and "pos < int (lg_len g)"
    and "lg_render g ! nat pos = CHR ''A''"
    and "g' = snd (lg_insert_te g pos len)" and "owner = lg_ID g ! nat pos"
  shows "owner \<notin> set (lg_active_tes g')
         \<and> (\<forall>p \<in> set (zip (lg_render g') (lg_ID g')). snd p = owner \<longrightarrow> fst p = CHR ''x'')"
proof -
  let ?i = "nat pos"
  let ?m = "mark_owner owner (lg_lst g) (lg_ID g)"
  have wf: "lg_wf g" unfolding assms(1) by (rule lg_reachable_wf)
  then have len: "length (lg_lst g) = length (lg_ID g)"
    and b2: "\<forall>t \<in> set (lg_ID g). t \<le> lg_count g"
    by (simp_all add: lg_wf_def)
  have "lg_distinct g" unfolding assms(1) by (rule lg_reachable_distinct)
  then have d: "distinct (lg_active_lst g)" by (simp add: lg_distinct_iff)
  from assms(2,3) have i: "?i < length (lg_ID g)" using len by (simp add: lg_len_def)
  with b2 assms(6) have ob: "owner \<le> lg_count g" by simp
  from assms(3) have rng: "pos < int (length (lg_lst g))" by (simp add: lg_len_def)
  from assms(4) have hit: "lg_lst g ! ?i = CHR ''A''" by (simp add: lg_render_def)
  note ins = lg_insert_te_in_range [OF wf assms(2) rng, of len]
  have lst': "lg_lst g' = take ?i ?m @ replicate (nat len) CHR ''A'' @ drop ?i ?m"
    and id': "lg_ID g' = take ?i (lg_ID g) @ replicate (nat len) (lg_count g + 1) @ drop ?i (lg_ID g)"
    and act': "lg_active_lst g' = remove1 owner (lg_active_lst g) @ [lg_count g + 1]"
    unfolding assms(5) ins using hit assms(6) by simp_all
  have a: "owner \<notin> set (lg_active_tes g')"
    using d ob by (simp add: lg_active_tes_def act')
  have lm: "length ?m = length (lg_ID g)" using len by (simp add: length_mark_owner)
  have z: "zip (lg_lst g') (lg_ID g') =
             take ?i (zip ?m (lg_ID g))
             @ zip (replicate (nat len) CHR ''A'') (replicate (nat len) (lg_count g + 1))
             @ drop ?i (zip ?m (lg_ID g))"
    using lm i by (simp add: lst' id' take_zip drop_zip)
  have zm: "\<forall>p \<in> set (zip ?m (lg_ID g)). snd p = owner \<longrightarrow> fst p = CHR ''x''"
    using zip_mark_owner [OF len [symmetric], of owner] by auto
  have "\<forall>p \<in> set (zip (lg_render g') (lg_ID g')). snd p = owner \<longrightarrow> fst p = CHR ''x''"
  proof
    fix p
    assume "p \<in> set (zip (lg_render g') (lg_ID g'))"
    then consider "p \<in> set (take ?i (zip ?m (lg_ID g)))"
      | "p \<in> set (zip (replicate (nat len) CHR ''A'') (replicate (nat len) (lg_count g + 1)))"
      | "p \<in> set (drop ?i (zip ?m (lg_ID g)))"
      unfolding lg_render_def z by auto
    then show "snd p = owner \<longrightarrow> fst p = CHR ''x''"
    proof cases
      case 1
      then have "p \<in> set (zip ?m (lg_ID g))" by (rule in_set_takeD)
      with zm show ?thesis by blast
    next
      case 2
      then have "snd p = lg_count g + 1" by (auto simp: set_zip)
      with ob show ?thesis by simp
    next
      case 3
      then have "p \<in> set (zip ?m (lg_ID g))" by (rule in_set_dropD)
      with zm show ?thesis by blast
    qed
  qed
  with a show ?thesis by blast
qed


section \<open>Identifiers outside the active list; a copy that never returns\<close>

text \<open>
  \<^verbatim>\<open>disable_te\<close> of an id outside the active list raises in both realizations;
  \<^verbatim>\<open>copy_te\<close> of such an id returns no value in the linked-slot genome, and raises in the
  array-backed genome when the id owns no position. An array-backed insert at the position
  equal to the length raises.
\<close>

lemma lg_disable_te_inactive:
  "te \<notin> set (lg_active_lst g) \<Longrightarrow> \<exists>e. fst (lg_disable_te g te) = Inl e"
  by (auto simp: lg_disable_te_def split: prod.splits option.splits)

lemma ll_disable_te_inactive:
  "te \<notin> set (ll_active_lst g) \<Longrightarrow> \<exists>e. fst (ll_disable_te g te) = Inl e"
  by (auto simp: ll_disable_te_def split: prod.splits option.splits)

lemma ll_copy_te_inactive:
  "te \<notin> set (ll_active_lst g) \<Longrightarrow> ll_copy_te g te offset = Some (Inr None, g)"
  by (simp add: ll_copy_te_def)

lemma first_index_None: "first_index ids te = None \<longleftrightarrow> te \<notin> set ids"
  by (induction ids) auto

lemma lg_copy_te_unowned:
  "te \<notin> set (lg_ID g) \<Longrightarrow> lg_copy_te g te offset = (Inl UnboundLocalError, g)"
  using first_index_None [of "lg_ID g" te] by (simp add: lg_copy_te_def)

lemma lg_insert_te_at_length:
  "fst (lg_insert_te g (int (length (lg_lst g))) len) = Inl IndexError"
  by (simp add: lg_insert_te_def lg_collide_def py_get_def)

text \<open>
  After \<^verbatim>\<open>insert_te(1, 0)\<close> and \<^verbatim>\<open>insert_te(1, 1)\<close> on a linked-slot genome of size 3,
  id 1 is in the active list and owns no slot, and the ring through slots 0, 3, 1, 2 never
  leaves them: the first loop of \<^verbatim>\<open>copy_te(1, 0)\<close> runs forever.
\<close>

lemma seek_te_cycles:
  assumes "seek_te ids nxt te i c = Some y"
  shows "\<not> (ids = [0, 0, 0, 2] \<and> nxt = [3, 2, 0, 1, 3] \<and> te = 1 \<and> i < 4)"
  using assms
proof (rule seek_te.raw_induct [rotated 1,
        where P = "\<lambda>ids nxt te i c y. \<not> (ids = [0, 0, 0, 2] \<and> nxt = [3, 2, 0, 1, 3] \<and> te = 1 \<and> i < 4)"])
  fix f :: "int list \<Rightarrow> nat list \<Rightarrow> int \<Rightarrow> nat \<Rightarrow> nat \<Rightarrow> (error + nat \<times> nat) option"
    and ids nxt te i c y
  assume IH: "\<And>ids nxt te i c y. f ids nxt te i c = Some y \<Longrightarrow>
                \<not> (ids = [0, 0, 0, 2] \<and> nxt = [3, 2, 0, 1, 3] \<and> te = 1 \<and> i < 4)"
    and body: "(if length ids \<le> i then Some (Inl IndexError)
                else if ids ! i = te then Some (Inr (i, c))
                else if length nxt \<le> i then Some (Inl IndexError)
                else f ids nxt te (nxt ! i) (c + 1)) = Some y"
  show "\<not> (ids = [0, 0, 0, 2] \<and> nxt = [3, 2, 0, 1, 3] \<and> te = 1 \<and> i < 4)"
  proof
    assume a: "ids = [0, 0, 0, 2] \<and> nxt = [3, 2, 0, 1, 3] \<and> te = 1 \<and> i < 4"
    then have "i = 0 \<or> i = 1 \<or> i = 2 \<or> i = 3" by auto
    with a have "ids ! i \<noteq> te" and "nxt ! i < 4" by auto
    with a body have "f ids nxt te (nxt ! i) (c + 1) = Some y" by simp
    from IH [OF this] a \<open>nxt ! i < 4\<close> show False by simp
  qed
qed

lemma ll_copy_te_diverges:
  "ll_run (ll_init 3) [Insert_te 1 0, Insert_te 1 1] =
     Some \<lparr>ll_lst = ''---A'', ll_index_next = [3, 2, 0, 1, 3], ll_ID = [0, 0, 0, 2],
            ll_active_lst = [1, 2], ll_count = 2\<rparr>
   \<and> ll_copy_te \<lparr>ll_lst = ''---A'', ll_index_next = [3, 2, 0, 1, 3], ll_ID = [0, 0, 0, 2],
            ll_active_lst = [1, 2], ll_count = 2\<rparr> 1 0 = None"
proof
  show "ll_run (ll_init 3) [Insert_te 1 0, Insert_te 1 1] =
     Some \<lparr>ll_lst = ''---A'', ll_index_next = [3, 2, 0, 1, 3], ll_ID = [0, 0, 0, 2],
            ll_active_lst = [1, 2], ll_count = 2\<rparr>"
    by code_simp
  have "seek_te [0, 0, 0, 2] [3, 2, 0, 1, 3] 1 0 0 = None"
    using seek_te_cycles [of "[0, 0, 0, 2]" "[3, 2, 0, 1, 3]" 1 0 0]
    by (cases "seek_te [0, 0, 0, 2] [3, 2, 0, 1, 3] 1 0 0") auto
  then show "ll_copy_te \<lparr>ll_lst = ''---A'', ll_index_next = [3, 2, 0, 1, 3], ll_ID = [0, 0, 0, 2],
            ll_active_lst = [1, 2], ll_count = 2\<rparr> 1 0 = None"
    by (simp add: ll_copy_te_def)
qed


end
